theory Spec2Isabelle
  imports Main "HOL-Library.Sublist"
begin

section \<open>The import rewriter \<open>jcip-annotations.py\<close>\<close>

text \<open>
  The script walks the directory tree below \<open>'.'\<close>, skips directories whose name matches
  \<open>ignore_pattern\<close>, and hands every non-directory whose name matches \<open>java_pattern\<close> to
  \<open>process_source\<close>, which copies the file line by line into a scratch file, rewriting the
  lines that match \<open>annot_pattern\<close>, and then either moves the scratch file over the
  original or removes it.

  The embedding keeps the script's structure: the three compiled patterns are values of a
  small regular-expression type interpreted by a backtracking matcher, the file system is an
  explicit store that every function takes and returns, each exception is the \<open>Inl\<close> branch of
  a sum, and the failures of the operating system are decided by an environment \<open>env\<close>, so
  that every \<open>try\<close>, \<open>finally\<close> and \<open>except\<close> of the source is a branch of the model.

  The script is read as a Python 3 program on a POSIX system: files are opened in text mode
  with universal newlines, and a newline written to a file is stored as it is.

  What the model takes for granted: the tree below the root holds directories and regular
  files only (no symbolic links), the temporary directory is not below the root, nothing
  else changes the file system during the run, and \<open>os.fdopen\<close>, \<open>src.close()\<close> and the
  removal of an existing scratch file do not fail.
\<close>

subsection \<open>Regular expressions\<close>

text \<open>
  Only the constructs that occur in the three patterns: \<open>^\<close>, \<open>.\<close>, literal text, sequence,
  alternation \<open>|\<close> and the star. \<open>rmatch r (b, s)\<close> lists, in the order in which a backtracking
  matcher tries them, the states that remain after \<open>r\<close> has matched at the front of \<open>s\<close>: the
  text not yet consumed, and whether the position is still the beginning of the string
  (which is where \<open>^\<close> matches, no flag being given). As in Python without \<open>DOTALL\<close>, the dot
  matches every character but the newline. The star is greedy and an iteration that
  consumes nothing ends it.
\<close>

datatype regex =
    Bol
  | Dot
  | Lit string
  | Seq regex regex
  | Alt regex regex
  | Star regex

fun rmatch :: "regex \<Rightarrow> bool \<times> string \<Rightarrow> (bool \<times> string) list" where
  "rmatch Bol (b, s) = (if b then [(b, s)] else [])"
| "rmatch Dot (b, s) =
     (case s of [] \<Rightarrow> [] | c # cs \<Rightarrow> if c = CHR 0x0A then [] else [(False, cs)])"
| "rmatch (Lit l) (b, s) =
     (if prefix l s then [(b \<and> l = [], drop (length l) s)] else [])"
| "rmatch (Seq r1 r2) p = concat (map (rmatch r2) (rmatch r1 p))"
| "rmatch (Alt r1 r2) p = rmatch r1 p @ rmatch r2 p"
| "rmatch (Star r) (b, s) =
     concat (map (\<lambda>(b', s'). if length s' < length s then rmatch (Star r) (b', s') else [])
                 (rmatch r (b, s))) @ [(b, s)]"

text \<open>\<open>pattern.match(s)\<close>: the pattern matches at position 0 of \<open>s\<close> (it need not reach the end).\<close>

definition re_match :: "regex \<Rightarrow> string \<Rightarrow> bool" where
  "re_match r s = (rmatch r (True, s) \<noteq> [])"

text \<open>
  \<^verbatim>\<open>ignore_pattern = re.compile('^(.svn|target|bin|classes)')\<close>
  \<^verbatim>\<open>java_pattern = re.compile('^.*\.java')\<close>
  \<^verbatim>\<open>annot_pattern = re.compile('import org\.apache\.http\.annotation\.')\<close>
\<close>

definition ignore_pattern :: regex where
  "ignore_pattern =
     Seq Bol (Alt (Seq Dot (Lit ''svn''))
             (Alt (Lit ''target'')
             (Alt (Lit ''bin'')
                  (Lit ''classes''))))"

definition java_pattern :: regex where
  "java_pattern = Seq Bol (Seq (Star Dot) (Lit ''.java''))"

definition annot_pattern :: regex where
  "annot_pattern = Lit ''import org.apache.http.annotation.''"

subsection \<open>Strings and lines\<close>

text \<open>
  \<open>s.replace(old, new)\<close> replaces every occurrence of \<open>old\<close>, scanning from the left and
  resuming after each replaced occurrence. (For an empty \<open>old\<close> Python inserts \<open>new\<close> before
  every character and at the end.)
\<close>

function str_replace :: "string \<Rightarrow> string \<Rightarrow> string \<Rightarrow> string" where
  "str_replace old new [] = (if old = [] then new else [])"
| "str_replace old new (c # cs) =
     (if old = [] then new @ c # str_replace old new cs
      else if prefix old (c # cs)
           then new @ str_replace old new (drop (length old) (c # cs))
      else c # str_replace old new cs)"
  by pat_completeness auto
termination
  by (relation "measure (\<lambda>(old, new, s). length s)") (auto simp: neq_Nil_conv)

text \<open>
  \<open>open(filename)\<close> opens the file in text mode with universal newlines: while reading, the
  line endings \<open>0x0D 0x0A\<close> and a lone \<open>0x0D\<close> are translated to \<open>0x0A\<close>.
\<close>

fun universal_newlines :: "string \<Rightarrow> string" where
  "universal_newlines [] = []"
| "universal_newlines [c] = (if c = CHR 0x0D then [CHR 0x0A] else [c])"
| "universal_newlines (c # d # cs) =
     (if c = CHR 0x0D
      then (if d = CHR 0x0A then CHR 0x0A # universal_newlines cs
            else CHR 0x0A # universal_newlines (d # cs))
      else c # universal_newlines (d # cs))"

text \<open>
  The translated text is cut after every \<open>0x0A\<close>: each line keeps its terminating newline, and
  the last line has none when the text does not end in one.
\<close>

fun split_lf :: "string \<Rightarrow> string list" where
  "split_lf [] = []"
| "split_lf (c # cs) =
     (if c = CHR 0x0A then [c] # split_lf cs
      else (case split_lf cs of [] \<Rightarrow> [[c]] | l # ls \<Rightarrow> (c # l) # ls))"

text \<open>The lines that \<open>for line in src\<close> yields for a file with the given content.\<close>

definition splitlines :: "string \<Rightarrow> string list" where
  "splitlines s = split_lf (universal_newlines s)"

subsection \<open>The file system and its failures\<close>

text \<open>
  A path is either a path below the walked root, kept as the list of its components
  (\<open>os.path.join dir file\<close> appends one), or the name of a scratch file handed out by
  \<open>tempfile.mkstemp\<close>, which lives in the system's temporary directory.
\<close>

datatype path = Rel "string list" | Tmp nat

definition join :: "string list \<Rightarrow> string \<Rightarrow> string list" where
  "join dir file = dir @ [file]"

datatype error = OSError | IOError

text \<open>The store: the content of every regular file, and the number of scratch names used.\<close>

record fs_state =
  files :: "path \<rightharpoonup> string"
  next_tmp :: nat

text \<open>
  What \<open>os.listdir\<close> and \<open>os.path.isdir\<close> report. The script never creates, renames or
  deletes an entry below the root, so this part of the file system is an argument of the
  walk and not part of the store.
\<close>

datatype dtree = File | Dir "(string \<times> dtree) list" | Unlistable

fun isdir :: "dtree \<Rightarrow> bool" where
  "isdir File = False"
| "isdir (Dir es) = True"
| "isdir Unlistable = True"

text \<open>
  The failures the environment may inject. \<open>shutil.move\<close> first tries \<open>os.rename\<close>, which
  replaces the destination in one step; when that raises \<open>OSError\<close> (the scratch file is on
  another file system, or the directory is not writable) it copies the content over the
  destination and unlinks the source. The copy may be refused before the destination is
  opened, or break off after some characters have been written.
\<close>

datatype copy_outcome = CopyOk | CopyDenied | CopyFailsAt nat

record env =
  mkstemp_fault :: "nat \<Rightarrow> bool"
  open_fault :: "path \<Rightarrow> bool"
  loop_fault :: "path \<Rightarrow> nat option"
  close_fault :: "path \<Rightarrow> bool"
  rename_ok :: "path \<Rightarrow> bool"
  copy_result :: "path \<Rightarrow> copy_outcome"

definition mkstemp :: "env \<Rightarrow> fs_state \<Rightarrow> (error + path) \<times> fs_state" where
  "mkstemp e st =
     (if mkstemp_fault e (next_tmp st) then (Inl OSError, st)
      else (Inr (Tmp (next_tmp st)),
            st\<lparr>files := (files st)(Tmp (next_tmp st) \<mapsto> []), next_tmp := Suc (next_tmp st)\<rparr>))"

text \<open>
  \<open>open(filename)\<close>, together with what iterating over the opened file yields: the lines of
  the content, read in text mode.
\<close>

definition py_open :: "env \<Rightarrow> path \<Rightarrow> fs_state \<Rightarrow> error + string list" where
  "py_open e filename st =
     (if open_fault e filename then Inl IOError
      else case files st filename of None \<Rightarrow> Inl IOError | Some c \<Rightarrow> Inr (splitlines c))"

text \<open>\<open>os.remove\<close> raises exactly when there is no such file.\<close>

definition os_remove :: "path \<Rightarrow> fs_state \<Rightarrow> (error + unit) \<times> fs_state" where
  "os_remove p st =
     (if files st p = None then (Inl OSError, st)
      else (Inr (), st\<lparr>files := (files st)(p := None)\<rparr>))"

definition shutil_move :: "env \<Rightarrow> path \<Rightarrow> path \<Rightarrow> fs_state \<Rightarrow> (error + unit) \<times> fs_state" where
  "shutil_move e src dst st =
     (case files st src of
        None \<Rightarrow> (Inl IOError, st)
      | Some c \<Rightarrow>
          if rename_ok e dst
          then (Inr (), st\<lparr>files := (files st)(dst \<mapsto> c, src := None)\<rparr>)
          else (case copy_result e dst of
                  CopyDenied \<Rightarrow> (Inl IOError, st)
                | CopyFailsAt k \<Rightarrow> (Inl IOError, st\<lparr>files := (files st)(dst \<mapsto> take k c)\<rparr>)
                | CopyOk \<Rightarrow> os_remove src (st\<lparr>files := (files st)(dst \<mapsto> c)\<rparr>)))"

subsection \<open>\<open>process_source\<close>\<close>

text \<open>
  The \<open>for line in src\<close> loop, with its two variables \<open>changed\<close> and the text written to \<open>dst\<close>
  so far. The first argument is the environment's fault: \<open>Some k\<close> when reading or writing
  raises in iteration \<open>k\<close> (counted from 0).
\<close>

fun line_loop :: "nat option \<Rightarrow> string list \<Rightarrow> bool \<Rightarrow> string \<Rightarrow> (error + unit) \<times> bool \<times> string" where
  "line_loop flt [] changed dst = (Inr (), changed, dst)"
| "line_loop flt (line # rest) changed dst =
     (if flt = Some 0 then (Inl IOError, changed, dst)
      else if re_match annot_pattern line
           then line_loop (map_option (\<lambda>k. k - 1) flt) rest True
                  (dst @ str_replace ''import org.apache.http.annotation.''
                                     ''import net.jcip.annotations.'' line)
      else line_loop (map_option (\<lambda>k. k - 1) flt) rest changed (dst @ line))"

text \<open>
  \<open>dst.close()\<close> in the outer \<open>finally\<close>: the text written so far reaches the scratch file, and
  an exception of the close replaces the result of the block.
\<close>

definition dst_close ::
  "env \<Rightarrow> path \<Rightarrow> path \<Rightarrow> string \<Rightarrow> error + bool \<Rightarrow> fs_state \<Rightarrow> (error + bool) \<times> fs_state" where
  "dst_close e filename tmpfile dst r st =
     (if close_fault e filename then (Inl IOError, st\<lparr>files := (files st)(tmpfile \<mapsto> dst)\<rparr>)
      else (r, st\<lparr>files := (files st)(tmpfile \<mapsto> dst)\<rparr>))"

text \<open>The two nested \<open>try ... finally\<close> blocks; the result is the value of \<open>changed\<close>.\<close>

definition copy_lines :: "env \<Rightarrow> path \<Rightarrow> path \<Rightarrow> fs_state \<Rightarrow> (error + bool) \<times> fs_state" where
  "copy_lines e filename tmpfile st =
     (case py_open e filename st of
        Inl x \<Rightarrow> dst_close e filename tmpfile [] (Inl x) st
      | Inr lines \<Rightarrow>
          (case line_loop (loop_fault e filename) lines False [] of
             (Inl x, changed, dst) \<Rightarrow> dst_close e filename tmpfile dst (Inl x) st
           | (Inr u, changed, dst) \<Rightarrow> dst_close e filename tmpfile dst (Inr changed) st))"

text \<open>The body of the outer \<open>try\<close>.\<close>

definition try_body :: "env \<Rightarrow> path \<Rightarrow> path \<Rightarrow> fs_state \<Rightarrow> (error + unit) \<times> fs_state" where
  "try_body e filename tmpfile st =
     (case copy_lines e filename tmpfile st of
        (Inl x, st1) \<Rightarrow> (Inl x, st1)
      | (Inr changed, st1) \<Rightarrow>
          if changed then shutil_move e tmpfile filename st1
          else os_remove tmpfile st1)"

text \<open>
  \<open>mkstemp\<close> is called before the \<open>try\<close>, so its exception leaves the function; the bare
  \<open>except\<close> removes the scratch file and does not raise again, so after it the function
  returns normally unless that \<open>os.remove\<close> itself raises.
\<close>

definition process_source :: "env \<Rightarrow> path \<Rightarrow> fs_state \<Rightarrow> (error + unit) \<times> fs_state" where
  "process_source e filename st =
     (case mkstemp e st of
        (Inl x, st0) \<Rightarrow> (Inl x, st0)
      | (Inr tmpfile, st0) \<Rightarrow>
          (case try_body e filename tmpfile st0 of
             (Inr u, st1) \<Rightarrow> (Inr (), st1)
           | (Inl x, st1) \<Rightarrow> os_remove tmpfile st1))"

subsection \<open>\<open>process_dir\<close>\<close>

text \<open>
  \<open>process_dir dir\<close> lists \<open>dir\<close> and loops over the entries; \<open>process_files\<close> is that loop.
  An exception of a recursive call or of \<open>process_source\<close> ends the loop and leaves the
  function, with the store as it is at that moment.
\<close>

function process_dir :: "env \<Rightarrow> string list \<Rightarrow> dtree \<Rightarrow> fs_state \<Rightarrow> (error + unit) \<times> fs_state"
  and process_files ::
    "env \<Rightarrow> string list \<Rightarrow> (string \<times> dtree) list \<Rightarrow> fs_state \<Rightarrow> (error + unit) \<times> fs_state" where
  "process_dir e dir (Dir es) st = process_files e dir es st"
| "process_dir e dir Unlistable st = (Inl OSError, st)"
| "process_dir e dir File st = (Inl OSError, st)"
| "process_files e dir [] st = (Inr (), st)"
| "process_files e dir ((file, t) # rest) st =
     (case (if isdir t
            then (if \<not> re_match ignore_pattern file
                  then process_dir e (join dir file) t st
                  else (Inr (), st))
            else (if re_match java_pattern file
                  then process_source e (Rel (join dir file)) st
                  else (Inr (), st))) of
        (Inl x, st1) \<Rightarrow> (Inl x, st1)
      | (Inr u, st1) \<Rightarrow> process_files e dir rest st1)"
  by pat_completeness auto
termination
  by (relation "measure (\<lambda>x. case x of
          Inl (e, dir, t, st) \<Rightarrow> size t
        | Inr (e, dir, es, st) \<Rightarrow> size_list (size_prod (\<lambda>_. 0) size) es)") auto

text \<open>The script's last line, \<open>process_dir('.')\<close>.\<close>

definition run :: "env \<Rightarrow> dtree \<Rightarrow> fs_state \<Rightarrow> (error + unit) \<times> fs_state" where
  "run e root st = process_dir e [''.''] root st"

text \<open>An environment in which no operation fails and the scratch file can be renamed.\<close>

definition no_faults :: env where
  "no_faults =
     \<lparr>mkstemp_fault = (\<lambda>n. False), open_fault = (\<lambda>p. False), loop_fault = (\<lambda>p. None),
      close_fault = (\<lambda>p. False), rename_ok = (\<lambda>p. True), copy_result = (\<lambda>p. CopyOk)\<rparr>"

subsection \<open>What the loop writes\<close>

text \<open>
  Names for what one iteration of the loop writes for a line, and for the text that the
  whole loop writes for a file's content when nothing fails (lemma \<open>line_loop_no_fault\<close>
  relates them to \<open>line_loop\<close>).
\<close>

definition rewrite_line :: "string \<Rightarrow> string" where
  "rewrite_line line =
     (if re_match annot_pattern line
      then str_replace ''import org.apache.http.annotation.'' ''import net.jcip.annotations.'' line
      else line)"

definition rewrite :: "string \<Rightarrow> string" where
  "rewrite c = concat (map rewrite_line (splitlines c))"

text \<open>
  The shape of a list of lines as iteration yields it: no line is empty, a newline occurs
  only as the last character of a line, and every line but the last one ends in a newline.
\<close>

fun lines_ok :: "string list \<Rightarrow> bool" where
  "lines_ok [] = True"
| "lines_ok [l] = (l \<noteq> [] \<and> CHR 0x0A \<notin> set (butlast l))"
| "lines_ok (l # l' # ls) =
     (l \<noteq> [] \<and> CHR 0x0A \<notin> set (butlast l) \<and> last l = CHR 0x0A \<and> lines_ok (l' # ls))"

subsection \<open>An example tree\<close>

text \<open>
  A small tree to run the script on: a file with a matching line, a file that is not
  eligible, an eligible file without a matching line, and an eligible file with a matching
  line below a directory named \<open>target\<close>.
\<close>

definition example_tree :: dtree where
  "example_tree =
     Dir [(''A.java'', File), (''README'', File), (''B.java'', File),
          (''target'', Dir [(''C.java'', File)])]"

definition example_state :: fs_state where
  "example_state =
     \<lparr>files =
        [Rel [''.'', ''A.java''] \<mapsto>
           ''import org.apache.http.annotation.Immutable;'' @ [CHR 0x0A] @ ''class A {}'',
         Rel [''.'', ''README''] \<mapsto> ''import org.apache.http.annotation.Immutable;'',
         Rel [''.'', ''B.java''] \<mapsto> ''import java.util.List;'',
         Rel [''.'', ''target'', ''C.java''] \<mapsto>
           ''import org.apache.http.annotation.Immutable;''],
      next_tmp = 0\<rparr>"

section \<open>Lemmas\<close>

subsection \<open>The patterns\<close>

lemma annot_match_prefix:
  "re_match annot_pattern s = prefix ''import org.apache.http.annotation.'' s"
  by (simp add: re_match_def annot_pattern_def)

lemma rmatch_star_dot_nil: "rmatch (Star Dot) (b, []) = [(b, [])]"
  by simp

lemma rmatch_star_dot_cons:
  "rmatch (Star Dot) (b, c # cs) =
     (if c = CHR 0x0A then [] else rmatch (Star Dot) (False, cs)) @ [(b, c # cs)]"
  by simp

lemma star_dot_then_lit:
  "(concat (map (rmatch (Lit l)) (rmatch (Star Dot) (b, s))) \<noteq> []) =
     (\<exists>pre suf. s = pre @ l @ suf \<and> CHR 0x0A \<notin> set pre)"
proof (induction s arbitrary: b)
  case Nil
  show ?case by (auto simp: prefix_def)
next
  case (Cons c cs)
  show ?case
  proof (cases "c = CHR 0x0A")
    case True
    have "(\<exists>pre suf. c # cs = pre @ l @ suf \<and> CHR 0x0A \<notin> set pre) = prefix l (c # cs)"
    proof
      assume "\<exists>pre suf. c # cs = pre @ l @ suf \<and> CHR 0x0A \<notin> set pre"
      then obtain pre suf where h: "c # cs = pre @ l @ suf" "CHR 0x0A \<notin> set pre" by blast
      with True have "pre = []" by (cases pre) auto
      with h show "prefix l (c # cs)" by (simp add: prefix_def)
    next
      assume "prefix l (c # cs)"
      then obtain suf where "c # cs = [] @ l @ suf" by (auto simp: prefix_def)
      then show "\<exists>pre suf. c # cs = pre @ l @ suf \<and> CHR 0x0A \<notin> set pre"
        by (metis empty_iff list.set(1))
    qed
    with True show ?thesis by (simp del: rmatch.simps(6) add: rmatch_star_dot_cons)
  next
    case False
    have "(\<exists>pre suf. c # cs = pre @ l @ suf \<and> CHR 0x0A \<notin> set pre) =
          (prefix l (c # cs) \<or> (\<exists>pre suf. cs = pre @ l @ suf \<and> CHR 0x0A \<notin> set pre))"
    proof
      assume "\<exists>pre suf. c # cs = pre @ l @ suf \<and> CHR 0x0A \<notin> set pre"
      then obtain pre suf where h: "c # cs = pre @ l @ suf" "CHR 0x0A \<notin> set pre" by blast
      show "prefix l (c # cs) \<or> (\<exists>pre suf. cs = pre @ l @ suf \<and> CHR 0x0A \<notin> set pre)"
      proof (cases pre)
        case Nil
        with h show ?thesis by (simp add: prefix_def)
      next
        case (Cons d ds)
        with h have "cs = ds @ l @ suf" "CHR 0x0A \<notin> set ds" by auto
        then show ?thesis by blast
      qed
    next
      assume "prefix l (c # cs) \<or> (\<exists>pre suf. cs = pre @ l @ suf \<and> CHR 0x0A \<notin> set pre)"
      then show "\<exists>pre suf. c # cs = pre @ l @ suf \<and> CHR 0x0A \<notin> set pre"
      proof
        assume "prefix l (c # cs)"
        then obtain suf where "c # cs = [] @ l @ suf" by (auto simp: prefix_def)
        then show ?thesis by (metis empty_iff list.set(1))
      next
        assume "\<exists>pre suf. cs = pre @ l @ suf \<and> CHR 0x0A \<notin> set pre"
        then obtain pre suf where "cs = pre @ l @ suf" "CHR 0x0A \<notin> set pre" by blast
        with False have "c # cs = (c # pre) @ l @ suf \<and> CHR 0x0A \<notin> set (c # pre)" by simp
        then show ?thesis by blast
      qed
    qed
    with False Cons.IH [of False] show ?thesis
      by (simp del: rmatch.simps(6) add: rmatch_star_dot_cons)
  qed
qed

lemma java_match_iff:
  "re_match java_pattern name =
     (\<exists>pre suf. name = pre @ ''.java'' @ suf \<and> CHR 0x0A \<notin> set pre)"
  unfolding re_match_def java_pattern_def
  using star_dot_then_lit [of "''.java''" True name]
  by (simp del: rmatch.simps(3,6))

lemma ignore_match_iff:
  "re_match ignore_pattern name =
     (prefix ''target'' name \<or> prefix ''bin'' name \<or> prefix ''classes'' name \<or>
      (\<exists>c r. name = c # ''svn'' @ r \<and> c \<noteq> CHR 0x0A))"
  by (cases name) (auto simp: re_match_def ignore_pattern_def prefix_def)

lemma str_replace_no_occurrence:
  "\<not> sublist old s \<Longrightarrow> str_replace old new s = s"
proof (induction old new s rule: str_replace.induct)
  case (1 old new)
  then show ?case by auto
next
  case (2 old new c cs)
  from "2.prems" have ne: "old \<noteq> []" by auto
  from "2.prems" have np: "\<not> prefix old (c # cs)" and ns: "\<not> sublist old cs"
    by (auto simp: sublist_Cons_right)
  with ne "2.IH"(3) show ?case by simp
qed

lemma str_replace_prefix:
  "old \<noteq> [] \<Longrightarrow> prefix old s \<Longrightarrow>
     str_replace old new s = new @ str_replace old new (drop (length old) s)"
  by (cases s) auto

lemma str_replace_snoc:
  "old \<noteq> [] \<Longrightarrow> c \<notin> set old \<Longrightarrow> str_replace old new (s @ [c]) = str_replace old new s @ [c]"
proof (induction old new s rule: str_replace.induct)
  case (1 old new)
  then show ?case by (auto simp: prefix_def Cons_eq_append_conv)
next
  case (2 old new d ds)
  have pre: "prefix old (d # ds @ [c]) = prefix old (d # ds)"
  proof
    assume "prefix old (d # ds @ [c])"
    then have "prefix old ((d # ds) @ [c])" by simp
    then have "prefix old (d # ds) \<or> old = (d # ds) @ [c]"
      using prefix_snoc [of old "d # ds" c] by blast
    with "2.prems" show "prefix old (d # ds)" by auto
  next
    assume "prefix old (d # ds)"
    then have "prefix old ((d # ds) @ [c])" by (rule prefix_prefix)
    then show "prefix old (d # ds @ [c])" by simp
  qed
  show ?case
  proof (cases "prefix old (d # ds)")
    case True
    then have le: "length old \<le> length (d # ds)" by (rule prefix_length_le)
    have "drop (length old) ((d # ds) @ [c]) =
          drop (length old) (d # ds) @ drop (length old - length (d # ds)) [c]"
      by (rule drop_append)
    with le have "drop (length old) (d # ds @ [c]) = drop (length old) (d # ds) @ [c]" by simp
    with True pre "2.prems" "2.IH"(2) show ?thesis by simp
  next
    case False
    with pre "2.prems" "2.IH"(3) show ?thesis by simp
  qed
qed

lemma str_replace_notin:
  "old \<noteq> [] \<Longrightarrow> c \<notin> set new \<Longrightarrow> c \<notin> set s \<Longrightarrow> c \<notin> set (str_replace old new s)"
proof (induction old new s rule: str_replace.induct)
  case (1 old new)
  then show ?case by simp
next
  case (2 old new d ds)
  show ?case
  proof (cases "prefix old (d # ds)")
    case True
    from "2.prems" have "c \<notin> set (drop (length old) (d # ds))"
      by (meson in_set_dropD)
    with True "2.prems" "2.IH"(2) show ?thesis by simp
  next
    case False
    with "2.prems" "2.IH"(3) show ?thesis by simp
  qed
qed

lemma concat_split_lf: "concat (split_lf s) = s"
  by (induction s) (auto split: list.splits)

lemma universal_newlines_no_cr: "CHR 0x0D \<notin> set (universal_newlines s)"
  by (induction s rule: universal_newlines.induct) auto

lemma universal_newlines_id: "CHR 0x0D \<notin> set s \<Longrightarrow> universal_newlines s = s"
  by (induction s rule: universal_newlines.induct) auto

lemma concat_splitlines: "concat (splitlines s) = universal_newlines s"
  by (simp add: splitlines_def concat_split_lf)

lemma concat_splitlines_id: "CHR 0x0D \<notin> set s \<Longrightarrow> concat (splitlines s) = s"
  by (simp add: concat_splitlines universal_newlines_id)

lemma splitlines_no_cr: "l \<in> set (splitlines s) \<Longrightarrow> CHR 0x0D \<notin> set l"
proof
  assume l: "l \<in> set (splitlines s)" and "CHR 0x0D \<in> set l"
  then have "CHR 0x0D \<in> set (concat (splitlines s))" by auto
  then show False by (simp only: concat_splitlines universal_newlines_no_cr)
qed

lemma lines_ok_split_lf: "lines_ok (split_lf s)"
proof (induction s)
  case Nil
  show ?case by simp
next
  case (Cons c cs)
  show ?case
  proof (cases "split_lf cs")
    case Nil
    then show ?thesis by simp
  next
    case (Cons l ls)
    with Cons.IH have "l \<noteq> []" by (cases ls) auto
    with Cons Cons.IH show ?thesis by (cases ls) auto
  qed
qed

lemma lines_ok_splitlines: "lines_ok (splitlines s)"
  by (simp add: splitlines_def lines_ok_split_lf)

lemma split_lf_line:
  "l \<noteq> [] \<Longrightarrow> CHR 0x0A \<notin> set (butlast l) \<Longrightarrow>
     split_lf (l @ s) =
       (if last l = CHR 0x0A then l # split_lf s
        else (case split_lf s of [] \<Rightarrow> [l] | k # ks \<Rightarrow> (l @ k) # ks))"
proof (induction l)
  case Nil
  then show ?case by simp
next
  case (Cons c cs)
  show ?case
  proof (cases "cs = []")
    case True
    then show ?thesis by (simp split: list.splits)
  next
    case False
    with Cons.prems have "c \<noteq> CHR 0x0A" "CHR 0x0A \<notin> set (butlast cs)" by auto
    with False Cons.IH show ?thesis by (auto split: list.splits)
  qed
qed

lemma split_lf_concat: "lines_ok ls \<Longrightarrow> split_lf (concat ls) = ls"
proof (induction ls rule: lines_ok.induct)
  case 1
  show ?case by simp
next
  case (2 l)
  then show ?case using split_lf_line [of l "[]"] by simp
next
  case (3 l l' ls)
  then show ?case using split_lf_line [of l "concat (l' # ls)"] by simp
qed

text \<open>A lone carriage return ends a line, and the line ending is read as a newline.\<close>

lemma splitlines_carriage_return:
  "splitlines (''package p;'' @ [CHR 0x0D] @ ''import org.apache.http.annotation.A;'') =
     [''package p;'' @ [CHR 0x0A], ''import org.apache.http.annotation.A;'']"
  "splitlines (''a'' @ [CHR 0x0D, CHR 0x0A] @ ''b'' @ [CHR 0x0A]) =
     [''a'' @ [CHR 0x0A], ''b'' @ [CHR 0x0A]]"
  by (simp_all add: splitlines_def)

lemma rewrite_line_matching:
  assumes "re_match annot_pattern l"
  shows "rewrite_line l = ''import net.jcip.annotations.'' @
           str_replace ''import org.apache.http.annotation.'' ''import net.jcip.annotations.''
             (drop (length ''import org.apache.http.annotation.'') l)"
proof -
  from assms have "prefix ''import org.apache.http.annotation.'' l"
    by (simp only: annot_match_prefix)
  then show ?thesis
    using assms
      str_replace_prefix [of "''import org.apache.http.annotation.''" l "''import net.jcip.annotations.''"]
    by (simp only: rewrite_line_def if_True) simp
qed

lemma new_prefix_no_match: "\<not> re_match annot_pattern (''import net.jcip.annotations.'' @ r)"
  by (simp add: annot_match_prefix)

lemma rewrite_line_idem: "rewrite_line (rewrite_line l) = rewrite_line l"
proof (cases "re_match annot_pattern l")
  case True
  then have "\<not> re_match annot_pattern (rewrite_line l)"
    by (simp only: rewrite_line_matching new_prefix_no_match not_False_eq_True)
  then show ?thesis by (simp add: rewrite_line_def)
next
  case False
  then show ?thesis by (simp add: rewrite_line_def)
qed

lemma rewrite_line_shape:
  assumes "l \<noteq> []" and "CHR 0x0A \<notin> set (butlast l)"
  shows "rewrite_line l \<noteq> [] \<and> CHR 0x0A \<notin> set (butlast (rewrite_line l)) \<and>
         (last l = CHR 0x0A \<longrightarrow> last (rewrite_line l) = CHR 0x0A)"
proof (cases "re_match annot_pattern l")
  case False
  with assms show ?thesis by (simp add: rewrite_line_def)
next
  case True
  let ?old = "''import org.apache.http.annotation.''"
  let ?new = "''import net.jcip.annotations.''"
  have ne: "rewrite_line l \<noteq> []" using rewrite_line_matching [OF True] by simp
  have rl: "rewrite_line l = str_replace ?old ?new l" using True by (simp add: rewrite_line_def)
  have o: "?old \<noteq> []" "CHR 0x0A \<notin> set ?old" "CHR 0x0A \<notin> set ?new" by simp_all
  show ?thesis
  proof (cases "last l = CHR 0x0A")
    case True
    from assms(1) have "l = butlast l @ [last l]" by simp
    with True have l: "l = butlast l @ [CHR 0x0A]" by simp
    have "str_replace ?old ?new (butlast l @ [CHR 0x0A]) = str_replace ?old ?new (butlast l) @ [CHR 0x0A]"
      using o(1,2) by (rule str_replace_snoc)
    with l rl have eq: "rewrite_line l = str_replace ?old ?new (butlast l) @ [CHR 0x0A]" by simp
    have "CHR 0x0A \<notin> set (str_replace ?old ?new (butlast l))"
      using o(1,3) assms(2) by (rule str_replace_notin)
    with eq ne show ?thesis by simp
  next
    case False
    from assms(1) have "l = butlast l @ [last l]" by simp
    then have "set l = set (butlast l) \<union> {last l}"
      by (metis Un_insert_right list.simps(15) set_append sup_bot.right_neutral list.set(1))
    with False assms(2) have "CHR 0x0A \<notin> set l" by auto
    with o(1,3) have "CHR 0x0A \<notin> set (str_replace ?old ?new l)" by (rule str_replace_notin)
    with rl have "CHR 0x0A \<notin> set (rewrite_line l)" by simp
    then have "CHR 0x0A \<notin> set (butlast (rewrite_line l))" by (meson in_set_butlastD)
    with ne False show ?thesis by simp
  qed
qed

lemma lines_ok_map_rewrite: "lines_ok ls \<Longrightarrow> lines_ok (map rewrite_line ls)"
proof (induction ls rule: lines_ok.induct)
  case 1
  show ?case by simp
next
  case (2 l)
  then show ?case using rewrite_line_shape [of l] by simp
next
  case (3 l l' ls)
  then show ?case using rewrite_line_shape [of l] by simp
qed

lemma rewrite_line_no_cr: "CHR 0x0D \<notin> set l \<Longrightarrow> CHR 0x0D \<notin> set (rewrite_line l)"
  using str_replace_notin [of "''import org.apache.http.annotation.''" "CHR 0x0D"
      "''import net.jcip.annotations.''" l]
  by (simp add: rewrite_line_def)

lemma rewrite_line_no_match: "\<not> re_match annot_pattern (rewrite_line l)"
proof (cases "re_match annot_pattern l")
  case True
  then show ?thesis
    by (simp only: rewrite_line_matching new_prefix_no_match not_False_eq_True)
next
  case False
  then show ?thesis by (simp add: rewrite_line_def)
qed

lemma rewrite_no_cr: "CHR 0x0D \<notin> set (rewrite c)"
  using splitlines_no_cr [of _ c] rewrite_line_no_cr by (auto simp: rewrite_def)

lemma splitlines_rewrite: "splitlines (rewrite c) = map rewrite_line (splitlines c)"
proof -
  have "splitlines (rewrite c) = split_lf (rewrite c)"
    by (simp add: splitlines_def universal_newlines_id rewrite_no_cr)
  also have "\<dots> = split_lf (concat (map rewrite_line (splitlines c)))"
    by (simp only: rewrite_def)
  also have "\<dots> = map rewrite_line (splitlines c)"
    by (rule split_lf_concat) (rule lines_ok_map_rewrite, rule lines_ok_splitlines)
  finally show ?thesis .
qed

lemma rewrite_unmatched: "l \<in> set (splitlines (rewrite c)) \<Longrightarrow> \<not> re_match annot_pattern l"
  by (auto simp: splitlines_rewrite rewrite_line_no_match)

lemma rewrite_idem: "rewrite (rewrite c) = rewrite c"
proof -
  have "rewrite (rewrite c) = concat (map rewrite_line (map rewrite_line (splitlines c)))"
    by (simp only: rewrite_def [of "rewrite c"] splitlines_rewrite)
  also have "\<dots> = concat (map rewrite_line (splitlines c))"
    by (simp add: rewrite_line_idem comp_def)
  finally show ?thesis by (simp only: rewrite_def)
qed

lemma rewrite_no_match:
  "\<forall>l\<in>set (splitlines c). \<not> re_match annot_pattern l \<Longrightarrow> rewrite c = universal_newlines c"
proof -
  assume "\<forall>l\<in>set (splitlines c). \<not> re_match annot_pattern l"
  then have "map rewrite_line (splitlines c) = splitlines c"
    by (simp add: rewrite_line_def map_idI)
  then show ?thesis by (simp add: rewrite_def concat_splitlines)
qed

lemma line_loop_changed:
  "line_loop flt ls ch dst = (r, ch', d) \<Longrightarrow> ch' \<Longrightarrow> ch \<or> (\<exists>l\<in>set ls. re_match annot_pattern l)"
proof (induction flt ls ch dst rule: line_loop.induct)
  case (1 flt changed dst)
  then show ?case by simp
next
  case (2 flt line rest changed dst)
  then show ?case by (auto split: if_splits)
qed

lemma line_loop_done:
  "line_loop flt ls ch dst = (Inr u, ch', d) \<Longrightarrow>
     ch' = (ch \<or> (\<exists>l\<in>set ls. re_match annot_pattern l)) \<and>
     d = dst @ concat (map rewrite_line ls)"
proof (induction flt ls ch dst rule: line_loop.induct)
  case (1 flt changed dst)
  then show ?case by simp
next
  case (2 flt line rest changed dst)
  then show ?case by (auto simp: rewrite_line_def split: if_splits)
qed

lemma line_loop_no_fault:
  "line_loop None ls ch dst =
     (Inr (), ch \<or> (\<exists>l\<in>set ls. re_match annot_pattern l), dst @ concat (map rewrite_line ls))"
  by (induction ls arbitrary: ch dst) (auto simp: rewrite_line_def)

subsection \<open>One file\<close>

lemma copy_lines_result:
  assumes "copy_lines e f tmp st = (r, st1)"
  shows "\<exists>d. st1 = st\<lparr>files := (files st)(tmp \<mapsto> d)\<rparr> \<and>
           (\<forall>ch. r = Inr ch \<longrightarrow>
              (\<exists>c. files st f = Some c \<and> \<not> open_fault e f \<and> \<not> close_fault e f \<and>
                   ch = (\<exists>l\<in>set (splitlines c). re_match annot_pattern l) \<and> d = rewrite c))"
proof (cases "py_open e f st")
  case (Inl x)
  with assms show ?thesis
    by (auto simp: copy_lines_def dst_close_def split: if_splits)
next
  case (Inr ls)
  then obtain c where c: "files st f = Some c" "\<not> open_fault e f" "ls = splitlines c"
    by (auto simp: py_open_def split: if_splits option.splits)
  obtain r0 ch d where ll: "line_loop (loop_fault e f) ls False [] = (r0, ch, d)"
    by (cases "line_loop (loop_fault e f) ls False []") auto
  show ?thesis
  proof (cases r0)
    case (Inl x)
    with assms Inr ll show ?thesis
      by (auto simp: copy_lines_def dst_close_def split: if_splits)
  next
    case (Inr u)
    with ll line_loop_done [of "loop_fault e f" ls False "[]" u ch d]
    have "ch = (\<exists>l\<in>set ls. re_match annot_pattern l)" "d = concat (map rewrite_line ls)"
      by auto
    with assms \<open>py_open e f st = Inr ls\<close> ll Inr c show ?thesis
      by (auto simp: copy_lines_def dst_close_def rewrite_def split: if_splits)
  qed
qed

lemma process_source_cases:
  assumes "process_source e (Rel p) st = (r, st')"
  shows "(mkstemp_fault e (next_tmp st) \<and> r = Inl OSError \<and> st' = st) \<or>
     (\<not> mkstemp_fault e (next_tmp st) \<and> r = Inr () \<and> next_tmp st' = Suc (next_tmp st) \<and>
      files st' (Tmp (next_tmp st)) = None \<and>
      (\<forall>q. q \<noteq> Rel p \<longrightarrow> q \<noteq> Tmp (next_tmp st) \<longrightarrow> files st' q = files st q) \<and>
      (files st' (Rel p) = files st (Rel p) \<or>
       (\<exists>c. files st (Rel p) = Some c \<and> (\<exists>l\<in>set (splitlines c). re_match annot_pattern l) \<and>
            \<not> open_fault e (Rel p) \<and> \<not> close_fault e (Rel p) \<and>
            (files st' (Rel p) = Some (rewrite c) \<or>
             (\<not> rename_ok e (Rel p) \<and>
              (\<exists>k. copy_result e (Rel p) = CopyFailsAt k \<and>
                   files st' (Rel p) = Some (take k (rewrite c))))))))"
proof (cases "mkstemp_fault e (next_tmp st)")
  case True
  with assms show ?thesis by (auto simp: process_source_def mkstemp_def)
next
  case False
  let ?t = "Tmp (next_tmp st)"
  let ?st0 = "st\<lparr>files := (files st)(?t \<mapsto> []), next_tmp := Suc (next_tmp st)\<rparr>"
  obtain r1 st1 where cl: "copy_lines e (Rel p) ?t ?st0 = (r1, st1)"
    by (cases "copy_lines e (Rel p) ?t ?st0") auto
  from copy_lines_result [OF cl] obtain d where
    st1: "st1 = ?st0\<lparr>files := (files ?st0)(?t \<mapsto> d)\<rparr>" and
    ok: "\<forall>ch. r1 = Inr ch \<longrightarrow>
              (\<exists>c. files ?st0 (Rel p) = Some c \<and> \<not> open_fault e (Rel p) \<and> \<not> close_fault e (Rel p) \<and>
                   ch = (\<exists>l\<in>set (splitlines c). re_match annot_pattern l) \<and> d = rewrite c)"
    by blast
  show ?thesis
  proof (cases r1)
    case (Inl x)
    with assms False cl st1 show ?thesis
      by (auto simp: process_source_def mkstemp_def try_body_def os_remove_def)
  next
    case (Inr ch)
    with ok obtain c where c: "files st (Rel p) = Some c" "\<not> open_fault e (Rel p)"
      "\<not> close_fault e (Rel p)" "ch = (\<exists>l\<in>set (splitlines c). re_match annot_pattern l)"
      "d = rewrite c" by auto
    show ?thesis
    proof (cases ch)
      case False
      with assms \<open>\<not> mkstemp_fault e (next_tmp st)\<close> cl st1 Inr show ?thesis
        by (auto simp: process_source_def mkstemp_def try_body_def os_remove_def)
    next
      case True
      with assms \<open>\<not> mkstemp_fault e (next_tmp st)\<close> cl st1 Inr c show ?thesis
        by (cases "copy_result e (Rel p)")
           (auto simp: process_source_def mkstemp_def try_body_def os_remove_def shutil_move_def
                 split: if_splits)
    qed
  qed
qed

subsection \<open>The walk\<close>

lemma process_source_frame:
  "process_source e (Rel p) st = (r, st') \<Longrightarrow> q \<noteq> p \<Longrightarrow> files st' (Rel q) = files st (Rel q)"
  using process_source_cases [of e p st r st'] by auto

lemma process_source_tmp_clean:
  "\<forall>n. files st (Tmp n) = None \<Longrightarrow> process_source e (Rel p) st = (r, st') \<Longrightarrow>
     \<forall>n. files st' (Tmp n) = None"
  using process_source_cases [of e p st r st'] by (metis path.distinct(1))

lemma process_source_keeps_unmatched:
  assumes "files st (Rel q) = Some c" and "\<forall>l\<in>set (splitlines c). \<not> re_match annot_pattern l"
    and "process_source e (Rel p) st = (r, st')"
  shows "files st' (Rel q) = Some c"
proof (cases "q = p")
  case False
  from process_source_frame [OF assms(3) False] assms(1) show ?thesis by simp
next
  case True
  with assms process_source_cases [of e p st r st'] show ?thesis by auto
qed

lemma walk_invariant:
  assumes step: "\<And>e p s r s'. I s \<Longrightarrow> process_source e (Rel p) s = (r, s') \<Longrightarrow> I s'"
  shows "process_dir e dir t st = (r, st') \<Longrightarrow> I st \<Longrightarrow> I st'"
    and "process_files e dir es st = (r, st') \<Longrightarrow> I st \<Longrightarrow> I st'"
proof (induction e dir t st and e dir es st arbitrary: r st' and r st'
       rule: process_dir_process_files.induct)
  case (1 e dir es st)
  then show ?case by simp
next
  case (2 e dir st)
  then show ?case by simp
next
  case (3 e dir st)
  then show ?case by simp
next
  case (4 e dir st)
  then show ?case by simp
next
  case (5 e dir fname t rest st)
  let ?one = "if isdir t
            then (if \<not> re_match ignore_pattern fname
                  then process_dir e (join dir fname) t st
                  else (Inr (), st))
            else (if re_match java_pattern fname
                  then process_source e (Rel (join dir fname)) st
                  else (Inr (), st))"
  obtain r1 st1 where one: "?one = (r1, st1)" by (cases ?one) auto
  have I1: "I st1"
  proof (cases "isdir t")
    case True
    with one "5.IH"(1) [of r1 st1] "5.prems"(2) show ?thesis by (auto split: if_splits)
  next
    case False
    with one step [of st e "join dir fname" r1 st1] "5.prems"(2) show ?thesis
      by (auto split: if_splits)
  qed
  show ?case
  proof (cases r1)
    case (Inl x)
    with one "5.prems"(1) I1 show ?thesis by simp
  next
    case (Inr u)
    with one "5.prems"(1) have "process_files e dir rest st1 = (r, st')" by simp
    with "5.IH"(2) [OF one [symmetric] Inr] I1 show ?thesis by blast
  qed
qed

lemma walk_frame:
  "process_dir e dir t st = (r, st') \<Longrightarrow> files st' (Rel q) \<noteq> files st (Rel q) \<Longrightarrow>
     \<exists>ns. q = dir @ ns \<and> ns \<noteq> [] \<and> (\<forall>n\<in>set (butlast ns). \<not> re_match ignore_pattern n) \<and>
          re_match java_pattern (last ns)"
  "process_files e dir es st = (r, st') \<Longrightarrow> files st' (Rel q) \<noteq> files st (Rel q) \<Longrightarrow>
     \<exists>ns. q = dir @ ns \<and> ns \<noteq> [] \<and> (\<forall>n\<in>set (butlast ns). \<not> re_match ignore_pattern n) \<and>
          re_match java_pattern (last ns)"
proof (induction e dir t st and e dir es st arbitrary: r st' and r st'
       rule: process_dir_process_files.induct)
  case (1 e dir es st)
  then show ?case by simp
next
  case (2 e dir st)
  then show ?case by simp
next
  case (3 e dir st)
  then show ?case by simp
next
  case (4 e dir st)
  then show ?case by simp
next
  case (5 e dir fname t rest st)
  let ?good = "\<lambda>d. \<exists>ns. q = d @ ns \<and> ns \<noteq> [] \<and>
      (\<forall>n\<in>set (butlast ns). \<not> re_match ignore_pattern n) \<and> re_match java_pattern (last ns)"
  let ?one = "if isdir t
            then (if \<not> re_match ignore_pattern fname
                  then process_dir e (join dir fname) t st
                  else (Inr (), st))
            else (if re_match java_pattern fname
                  then process_source e (Rel (join dir fname)) st
                  else (Inr (), st))"
  obtain r1 st1 where one: "?one = (r1, st1)" by (cases ?one) auto
  have first: "files st1 (Rel q) \<noteq> files st (Rel q) \<Longrightarrow> ?good dir"
  proof -
    assume ch: "files st1 (Rel q) \<noteq> files st (Rel q)"
    show "?good dir"
    proof (cases "isdir t")
      case True
      with one ch have ni: "\<not> re_match ignore_pattern fname"
        and pd: "process_dir e (join dir fname) t st = (r1, st1)"
        by (auto split: if_splits)
      from "5.IH"(1) [OF True ni pd ch] obtain ns where
        ns: "q = join dir fname @ ns" "ns \<noteq> []"
          "\<forall>n\<in>set (butlast ns). \<not> re_match ignore_pattern n" "re_match java_pattern (last ns)"
        by blast
      with ni have "q = dir @ (fname # ns) \<and> fname # ns \<noteq> [] \<and>
          (\<forall>n\<in>set (butlast (fname # ns)). \<not> re_match ignore_pattern n) \<and>
          re_match java_pattern (last (fname # ns))"
        by (simp add: join_def)
      then show ?thesis by blast
    next
      case False
      with one ch have jm: "re_match java_pattern fname"
        and ps: "process_source e (Rel (join dir fname)) st = (r1, st1)"
        by (auto split: if_splits)
      from ps ch have "q = join dir fname" using process_source_frame by blast
      with jm have "q = dir @ [fname] \<and> [fname] \<noteq> [] \<and>
          (\<forall>n\<in>set (butlast [fname]). \<not> re_match ignore_pattern n) \<and>
          re_match java_pattern (last [fname])"
        by (simp add: join_def)
      then show ?thesis by blast
    qed
  qed
  show ?case
  proof (cases r1)
    case (Inl x)
    with one "5.prems"(1) have "st' = st1" by simp
    with first "5.prems"(2) show ?thesis by simp
  next
    case (Inr u)
    with one "5.prems"(1) have pf: "process_files e dir rest st1 = (r, st')" by simp
    show ?thesis
    proof (cases "files st' (Rel q) = files st1 (Rel q)")
      case True
      with "5.prems"(2) first show ?thesis by simp
    next
      case False
      from "5.IH"(2) [OF one [symmetric] Inr pf False] show ?thesis .
    qed
  qed
qed

subsection \<open>A file processed without failure\<close>

lemma process_source_success:
  assumes "\<not> mkstemp_fault e (next_tmp st)" and "\<not> open_fault e (Rel p)"
    and "loop_fault e (Rel p) = None" and "\<not> close_fault e (Rel p)"
    and "rename_ok e (Rel p) \<or> copy_result e (Rel p) = CopyOk"
    and "files st (Rel p) = Some c"
    and "\<exists>l\<in>set (splitlines c). re_match annot_pattern l"
  shows "fst (process_source e (Rel p) st) = Inr () \<and>
         files (snd (process_source e (Rel p) st)) (Rel p) = Some (rewrite c)"
  using assms
  by (auto simp: process_source_def mkstemp_def try_body_def copy_lines_def py_open_def
        dst_close_def line_loop_no_fault shutil_move_def os_remove_def rewrite_def)

lemma process_source_absent:
  "files st (Rel p) = None \<Longrightarrow> files (snd (process_source e (Rel p) st)) (Rel p) = None"
  using process_source_cases [of e p st "fst (process_source e (Rel p) st)"
          "snd (process_source e (Rel p) st)"]
  by auto

lemma process_source_no_faults:
  "files (snd (process_source no_faults (Rel p) st)) (Rel p) =
     (case files st (Rel p) of
        None \<Rightarrow> None
      | Some c \<Rightarrow>
          Some (if \<exists>l\<in>set (splitlines c). re_match annot_pattern l then rewrite c else c))"
proof (cases "files st (Rel p)")
  case None
  then show ?thesis by (simp add: process_source_absent)
next
  case (Some c)
  show ?thesis
  proof (cases "\<exists>l\<in>set (splitlines c). re_match annot_pattern l")
    case True
    with Some show ?thesis
      using process_source_success [of no_faults st p c] by (simp add: no_faults_def)
  next
    case False
    then have "\<forall>l\<in>set (splitlines c). \<not> re_match annot_pattern l" by blast
    from process_source_keeps_unmatched [OF Some this, of no_faults p
        "fst (process_source no_faults (Rel p) st)" "snd (process_source no_faults (Rel p) st)"]
    show ?thesis using Some False by simp
  qed
qed

lemma process_source_no_faults_state:
  assumes "files st (Rel p) = Some c" and "files st (Tmp (next_tmp st)) = None"
  shows "process_source no_faults (Rel p) st =
           (Inr (), st\<lparr>files := (files st)
                          (Rel p \<mapsto> if \<exists>l\<in>set (splitlines c). re_match annot_pattern l
                                    then rewrite c else c),
                         next_tmp := Suc (next_tmp st)\<rparr>)"
proof (cases "\<exists>l\<in>set (splitlines c). re_match annot_pattern l")
  case True
  have "(files st)(Tmp (next_tmp st) \<mapsto> d, Rel p \<mapsto> d', Tmp (next_tmp st) := None) =
        (files st)(Rel p \<mapsto> d')" for d d'
    using assms(2) by (auto simp: fun_eq_iff)
  with True assms show ?thesis
    by (simp add: process_source_def mkstemp_def try_body_def copy_lines_def py_open_def
          dst_close_def line_loop_no_fault shutil_move_def no_faults_def rewrite_def)
next
  case False
  have "(files st)(Tmp (next_tmp st) := None) = (files st)(Rel p \<mapsto> c)"
    using assms by (auto simp: fun_eq_iff)
  with False assms show ?thesis
    by (simp add: process_source_def mkstemp_def try_body_def copy_lines_def py_open_def
          dst_close_def line_loop_no_fault os_remove_def no_faults_def)
qed

lemmas eval_defs =
  run_def join_def re_match_def ignore_pattern_def java_pattern_def annot_pattern_def
  example_tree_def example_state_def rewrite_def rewrite_line_def splitlines_def
  process_source_no_faults_state

subsection \<open>The whole run\<close>

lemma process_source_tmp_same:
  "process_source e (Rel p) st = (r, st') \<Longrightarrow> files st (Tmp (next_tmp st)) = None \<Longrightarrow>
     files st' (Tmp n) = files st (Tmp n)"
  using process_source_cases [of e p st r st'] by (cases "n = next_tmp st") auto

lemma run_frame:
  assumes "files (snd (run e root st)) (Rel (''.'' # ns)) \<noteq> files st (Rel (''.'' # ns))"
  shows "ns \<noteq> [] \<and> (\<forall>n\<in>set (butlast ns). \<not> re_match ignore_pattern n) \<and>
         re_match java_pattern (last ns)"
proof -
  have "process_dir e [''.''] root st = (fst (run e root st), snd (run e root st))"
    by (simp add: run_def)
  from walk_frame(1) [OF this, of "''.'' # ns"] assms show ?thesis by auto
qed

lemma run_invariant:
  assumes "\<And>e p s r s'. I s \<Longrightarrow> process_source e (Rel p) s = (r, s') \<Longrightarrow> I s'" and "I st"
  shows "I (snd (run e root st))"
proof -
  have "process_dir e [''.''] root st = (fst (run e root st), snd (run e root st))"
    by (simp add: run_def)
  from walk_invariant(1) [of I, OF assms(1) this assms(2)] show ?thesis by simp
qed

subsection \<open>Failures\<close>

lemma line_loop_fault:
  "k < length ls \<Longrightarrow> fst (line_loop (Some k) ls ch dst) = Inl IOError"
proof (induction ls arbitrary: k ch dst)
  case Nil
  then show ?case by simp
next
  case (Cons l ls)
  show ?case
  proof (cases k)
    case 0
    then show ?thesis by simp
  next
    case (Suc j)
    with Cons.prems have "j < length ls" by simp
    with Suc Cons.IH [of j] show ?thesis by simp
  qed
qed

lemma copy_lines_loop_fault:
  assumes "files st f = Some c" and "loop_fault e f = Some k" and "k < length (splitlines c)"
  shows "\<exists>x. fst (copy_lines e f tmp st) = Inl x"
proof (cases "open_fault e f")
  case True
  then show ?thesis by (simp add: copy_lines_def py_open_def dst_close_def)
next
  case False
  obtain r0 ch d where ll: "line_loop (Some k) (splitlines c) False [] = (r0, ch, d)"
    by (cases "line_loop (Some k) (splitlines c) False []") auto
  with line_loop_fault [OF assms(3), of False "[]"] have "r0 = Inl IOError" by simp
  with False assms(1,2) ll show ?thesis
    by (simp add: copy_lines_def py_open_def dst_close_def)
qed

lemma try_body_keeps_tmp:
  assumes "try_body e (Rel p) (Tmp n) st0 = (Inl x, st1)"
  shows "files st1 (Tmp n) \<noteq> None"
proof -
  obtain r1 s1 where cl: "copy_lines e (Rel p) (Tmp n) st0 = (r1, s1)"
    by (cases "copy_lines e (Rel p) (Tmp n) st0") auto
  from copy_lines_result [OF cl] obtain d where
    s1: "s1 = st0\<lparr>files := (files st0)(Tmp n \<mapsto> d)\<rparr>" by blast
  show ?thesis
  proof (cases r1)
    case (Inl y)
    with assms cl s1 show ?thesis by (auto simp: try_body_def)
  next
    case (Inr ch)
    with assms cl s1 show ?thesis
      by (cases "copy_result e (Rel p)")
         (auto simp: try_body_def shutil_move_def os_remove_def split: if_splits)
  qed
qed

lemma process_source_error_keeps:
  assumes "files st (Rel p) = Some c"
    and "open_fault e (Rel p) \<or> close_fault e (Rel p) \<or>
         (\<exists>k. loop_fault e (Rel p) = Some k \<and> k < length (splitlines c)) \<or>
         (\<not> rename_ok e (Rel p) \<and> copy_result e (Rel p) = CopyDenied)"
  shows "files (snd (process_source e (Rel p) st)) (Rel p) = Some c"
proof -
  obtain r st' where ps: "process_source e (Rel p) st = (r, st')"
    by (cases "process_source e (Rel p) st") auto
  show ?thesis
  proof (cases "mkstemp_fault e (next_tmp st)")
    case True
    with assms(1) show ?thesis by (simp add: process_source_def mkstemp_def)
  next
    case False
    let ?t = "Tmp (next_tmp st)"
    let ?st0 = "st\<lparr>files := (files st)(?t \<mapsto> []), next_tmp := Suc (next_tmp st)\<rparr>"
    have f0: "files ?st0 (Rel p) = Some c" using assms(1) by simp
    obtain r1 s1 where cl: "copy_lines e (Rel p) ?t ?st0 = (r1, s1)"
      by (cases "copy_lines e (Rel p) ?t ?st0") auto
    from copy_lines_result [OF cl] obtain d where
      s1: "s1 = ?st0\<lparr>files := (files ?st0)(?t \<mapsto> d)\<rparr>" and
      ok: "\<forall>ch. r1 = Inr ch \<longrightarrow> \<not> open_fault e (Rel p) \<and> \<not> close_fault e (Rel p)"
      by blast
    show ?thesis
    proof (cases r1)
      case (Inl y)
      with False cl s1 assms(1) show ?thesis
        by (simp add: process_source_def mkstemp_def try_body_def os_remove_def)
    next
      case (Inr ch)
      with ok have nf: "\<not> open_fault e (Rel p)" "\<not> close_fault e (Rel p)" by auto
      have "\<not> (\<exists>k. loop_fault e (Rel p) = Some k \<and> k < length (splitlines c))"
      proof
        assume "\<exists>k. loop_fault e (Rel p) = Some k \<and> k < length (splitlines c)"
        then obtain k where k: "loop_fault e (Rel p) = Some k" "k < length (splitlines c)"
          by blast
        from copy_lines_loop_fault [OF f0 k, of ?t] cl Inr show False by simp
      qed
      with nf assms(2) have den: "\<not> rename_ok e (Rel p)" "copy_result e (Rel p) = CopyDenied"
        by auto
      with False cl s1 Inr assms(1) show ?thesis
        by (simp add: process_source_def mkstemp_def try_body_def os_remove_def shutil_move_def)
    qed
  qed
qed

lemma process_source_returns:
  assumes "\<not> mkstemp_fault e (next_tmp st)"
  shows "fst (process_source e (Rel p) st) = Inr () \<and>
         files (snd (process_source e (Rel p) st)) (Tmp (next_tmp st)) = None"
  using assms process_source_cases [of e p st "fst (process_source e (Rel p) st)"
          "snd (process_source e (Rel p) st)"]
  by auto

lemma process_files_append:
  "process_files e dir (es1 @ es2) st =
     (case process_files e dir es1 st of
        (Inl x, st1) \<Rightarrow> (Inl x, st1)
      | (Inr u, st1) \<Rightarrow> process_files e dir es2 st1)"
proof (induction es1 arbitrary: st)
  case Nil
  show ?case by simp
next
  case (Cons a es1)
  obtain name t where a: "a = (name, t)" by (cases a) auto
  show ?case unfolding a
    by (simp add: Cons.IH split: prod.splits sum.splits)
qed

subsection \<open>Unfolding the model on concrete inputs\<close>

lemmas model_defs =
  run_def join_def re_match_def ignore_pattern_def java_pattern_def annot_pattern_def
  process_source_def mkstemp_def try_body_def copy_lines_def py_open_def dst_close_def
  shutil_move_def os_remove_def no_faults_def example_tree_def example_state_def
  splitlines_def

section \<open>The claims\<close>

text \<open>
  Claim C1 (as amended). When nothing fails, processing a file that has at least one matching
  line leaves the concatenation, in order, of the file's lines as they are read (a line
  ending \<open>0x0D 0x0A\<close> or \<open>0x0D\<close> is read, and written back, as \<open>0x0A\<close>), where a line that does
  not begin with \<open>import org.apache.http.annotation.\<close> is written as read and a line that does
  has this prefix, and every further occurrence of the same text in the line, replaced by
  \<open>import net.jcip.annotations.\<close>; the rest of a matching line is kept as it is when it does
  not contain that text again. Read again, the new content has these lines; and the lines
  read from a file without carriage returns are the pieces of its content.
\<close>

theorem C1_rewrite_lines:
  assumes "files st (Rel p) = Some c"
    and "\<exists>l\<in>set (splitlines c). re_match annot_pattern l"
    and "\<not> mkstemp_fault e (next_tmp st)" and "\<not> open_fault e (Rel p)"
    and "loop_fault e (Rel p) = None" and "\<not> close_fault e (Rel p)"
    and "rename_ok e (Rel p) \<or> copy_result e (Rel p) = CopyOk"
  shows "fst (process_source e (Rel p) st) = Inr () \<and>
    (\<exists>c'. files (snd (process_source e (Rel p) st)) (Rel p) = Some c' \<and>
       c' = concat (map (\<lambda>l. if prefix ''import org.apache.http.annotation.'' l
                  then str_replace ''import org.apache.http.annotation.''
                         ''import net.jcip.annotations.'' l
                  else l) (splitlines c)) \<and>
       splitlines c' =
         map (\<lambda>l. if prefix ''import org.apache.http.annotation.'' l
                  then str_replace ''import org.apache.http.annotation.''
                         ''import net.jcip.annotations.'' l
                  else l) (splitlines c)) \<and>
    (\<forall>l. prefix ''import org.apache.http.annotation.'' l \<longrightarrow>
       str_replace ''import org.apache.http.annotation.'' ''import net.jcip.annotations.'' l =
         ''import net.jcip.annotations.'' @
         str_replace ''import org.apache.http.annotation.'' ''import net.jcip.annotations.''
           (drop (length ''import org.apache.http.annotation.'') l)) \<and>
    (\<forall>r. \<not> sublist ''import org.apache.http.annotation.'' r \<longrightarrow>
       str_replace ''import org.apache.http.annotation.'' ''import net.jcip.annotations.''
         (''import org.apache.http.annotation.'' @ r) = ''import net.jcip.annotations.'' @ r) \<and>
    concat (splitlines c) = universal_newlines c \<and>
    (CHR 0x0D \<notin> set c \<longrightarrow> concat (splitlines c) = c)"
proof -
  let ?old = "''import org.apache.http.annotation.''"
  let ?new = "''import net.jcip.annotations.''"
  let ?f = "\<lambda>l. if prefix ?old l then str_replace ?old ?new l else l"
  have ok: "fst (process_source e (Rel p) st) = Inr ()"
    and new: "files (snd (process_source e (Rel p) st)) (Rel p) = Some (rewrite c)"
    using process_source_success [OF assms(3-7) assms(1,2)] by simp_all
  have rl: "rewrite_line = ?f"
    by (rule ext) (simp only: rewrite_line_def annot_match_prefix)
  then have sl: "splitlines (rewrite c) = map ?f (splitlines c)"
    by (simp only: splitlines_rewrite)
  from rl have "rewrite c = concat (map ?f (splitlines c))"
    by (simp only: rewrite_def)
  with new sl have a: "\<exists>c'. files (snd (process_source e (Rel p) st)) (Rel p) = Some c' \<and>
       c' = concat (map ?f (splitlines c)) \<and> splitlines c' = map ?f (splitlines c)"
    by simp
  have ne: "?old \<noteq> []" by simp
  have b: "\<forall>l. prefix ?old l \<longrightarrow>
      str_replace ?old ?new l = ?new @ str_replace ?old ?new (drop (length ?old) l)"
    using str_replace_prefix [OF ne] by blast
  have d: "\<forall>r. \<not> sublist ?old r \<longrightarrow> str_replace ?old ?new (?old @ r) = ?new @ r"
  proof (intro allI impI)
    fix r
    assume n: "\<not> sublist ?old r"
    have "prefix ?old (?old @ r)" by (rule prefixI) simp
    from str_replace_prefix [OF ne this, of ?new]
    have "str_replace ?old ?new (?old @ r) = ?new @ str_replace ?old ?new r"
      by (simp only: append_eq_conv_conj drop_append length_drop) simp
    with str_replace_no_occurrence [OF n] show "str_replace ?old ?new (?old @ r) = ?new @ r"
      by simp
  qed
  have u: "concat (splitlines c) = universal_newlines c" by (rule concat_splitlines)
  have v: "CHR 0x0D \<notin> set c \<longrightarrow> concat (splitlines c) = c"
    using concat_splitlines_id by blast
  show ?thesis by (rule conjI [OF ok conjI [OF a conjI [OF b conjI [OF d conjI [OF u v]]]]])
qed

theorem C1_rewrite_lines_witness:
  "re_match annot_pattern (''import org.apache.http.annotation.Immutable;'' @ [CHR 0x0A]) \<and>
   files (snd (process_source no_faults (Rel [''.'', ''A.java'']) example_state))
     (Rel [''.'', ''A.java'']) =
   Some (''import net.jcip.annotations.Immutable;'' @ [CHR 0x0A] @ ''class A {}'')"
proof -
  let ?c = "''import org.apache.http.annotation.Immutable;'' @ [CHR 0x0A] @ ''class A {}''"
  have f: "files example_state (Rel [''.'', ''A.java'']) = Some ?c"
    by (simp add: example_state_def)
  have m: "\<exists>l\<in>set (splitlines ?c). re_match annot_pattern l"
    by (simp add: splitlines_def annot_match_prefix)
  have e: "\<not> mkstemp_fault no_faults (next_tmp example_state)"
    "\<not> open_fault no_faults (Rel [''.'', ''A.java''])"
    "loop_fault no_faults (Rel [''.'', ''A.java'']) = None"
    "\<not> close_fault no_faults (Rel [''.'', ''A.java''])"
    "rename_ok no_faults (Rel [''.'', ''A.java'']) \<or>
     copy_result no_faults (Rel [''.'', ''A.java'']) = CopyOk"
    by (simp_all add: no_faults_def)
  from C1_rewrite_lines [OF f m e, THEN conjunct2, THEN conjunct1]
  obtain c' where c': "files (snd (process_source no_faults (Rel [''.'', ''A.java'']) example_state))
      (Rel [''.'', ''A.java'']) = Some c'"
    and sl: "c' =
         concat (map (\<lambda>l. if prefix ''import org.apache.http.annotation.'' l
                  then str_replace ''import org.apache.http.annotation.''
                         ''import net.jcip.annotations.'' l
                  else l) (splitlines ?c))"
    by blast
  have "c' = ''import net.jcip.annotations.Immutable;'' @ [CHR 0x0A] @ ''class A {}''"
    unfolding sl by (simp add: splitlines_def)
  with c' show ?thesis by (simp add: annot_match_prefix)
qed

text \<open>
  Claim C1 as stated fails for a matching line that contains the text a second time: the
  second occurrence is replaced too, so the rest of the line is not kept as it is. It also
  fails for a file with the line ending \<open>0x0D 0x0A\<close>: the line that does not match is written
  back with the line ending \<open>0x0A\<close>.
\<close>

theorem C1_counterexample:
  "re_match java_pattern ''A.java'' \<and>
   re_match annot_pattern
     ''import org.apache.http.annotation.Immutable; import org.apache.http.annotation.ThreadSafe;'' \<and>
   files (snd (process_source no_faults (Rel [''.'', ''A.java''])
       \<lparr>files = [Rel [''.'', ''A.java''] \<mapsto>
          ''import org.apache.http.annotation.Immutable; import org.apache.http.annotation.ThreadSafe;''],
        next_tmp = 0\<rparr>)) (Rel [''.'', ''A.java'']) =
     Some ''import net.jcip.annotations.Immutable; import net.jcip.annotations.ThreadSafe;'' \<and>
   ''import net.jcip.annotations.Immutable; import net.jcip.annotations.ThreadSafe;'' \<noteq>
     ''import net.jcip.annotations.'' @
     drop (length ''import org.apache.http.annotation.'')
       ''import org.apache.http.annotation.Immutable; import org.apache.http.annotation.ThreadSafe;'' \<and>
   files (snd (process_source no_faults (Rel [''.'', ''A.java''])
       \<lparr>files = [Rel [''.'', ''A.java''] \<mapsto>
          ''package p;'' @ [CHR 0x0D, CHR 0x0A] @
          ''import org.apache.http.annotation.Immutable;'' @ [CHR 0x0D, CHR 0x0A]],
        next_tmp = 0\<rparr>)) (Rel [''.'', ''A.java'']) =
     Some (''package p;'' @ [CHR 0x0A] @ ''import net.jcip.annotations.Immutable;'' @ [CHR 0x0A])"
proof -
  have "re_match java_pattern ''A.java''"
    by (simp add: re_match_def java_pattern_def)
  then show ?thesis
    by (simp add: process_source_no_faults rewrite_def rewrite_line_def splitlines_def
          annot_match_prefix)
qed

text \<open>
  Claim C2 (as amended). \<open>process_source\<close> writes to the original only through the one call
  of \<open>shutil.move\<close>. When that call renames the scratch file, or copies it without breaking
  off part-way, the original afterwards holds either exactly its old content or the complete
  rewritten content (the lines as they are read, line endings read as \<open>0x0A\<close>, with the
  matching lines rewritten); when no line matches, and when opening, reading, writing or
  closing fails or the copy is refused, it holds exactly its old content. No scratch file is
  left, and no other file below the root is touched.
\<close>

theorem C2_all_or_nothing:
  assumes "files st (Rel p) = Some c" and "process_source e (Rel p) st = (r, st')"
  shows
   "((rename_ok e (Rel p) \<or> (\<forall>k. copy_result e (Rel p) \<noteq> CopyFailsAt k)) \<longrightarrow>
       files st' (Rel p) = Some c \<or> files st' (Rel p) = Some (rewrite c)) \<and>
    ((\<forall>l\<in>set (splitlines c). \<not> re_match annot_pattern l) \<longrightarrow> files st' (Rel p) = Some c) \<and>
    (open_fault e (Rel p) \<or> close_fault e (Rel p) \<or>
       (\<exists>k. loop_fault e (Rel p) = Some k \<and> k < length (splitlines c)) \<or>
       (\<not> rename_ok e (Rel p) \<and> copy_result e (Rel p) = CopyDenied) \<longrightarrow>
       files st' (Rel p) = Some c) \<and>
    (files st (Tmp (next_tmp st)) = None \<longrightarrow> (\<forall>n. files st' (Tmp n) = files st (Tmp n))) \<and>
    (\<forall>q. q \<noteq> p \<longrightarrow> files st' (Rel q) = files st (Rel q))"
proof -
  have a: "(rename_ok e (Rel p) \<or> (\<forall>k. copy_result e (Rel p) \<noteq> CopyFailsAt k)) \<longrightarrow>
       files st' (Rel p) = Some c \<or> files st' (Rel p) = Some (rewrite c)"
    using process_source_cases [OF assms(2)] assms(1) by auto
  have b: "(\<forall>l\<in>set (splitlines c). \<not> re_match annot_pattern l) \<longrightarrow> files st' (Rel p) = Some c"
    using process_source_keeps_unmatched [OF assms(1) _ assms(2)] by blast
  have d: "open_fault e (Rel p) \<or> close_fault e (Rel p) \<or>
       (\<exists>k. loop_fault e (Rel p) = Some k \<and> k < length (splitlines c)) \<or>
       (\<not> rename_ok e (Rel p) \<and> copy_result e (Rel p) = CopyDenied) \<longrightarrow>
       files st' (Rel p) = Some c"
  proof
    assume "open_fault e (Rel p) \<or> close_fault e (Rel p) \<or>
       (\<exists>k. loop_fault e (Rel p) = Some k \<and> k < length (splitlines c)) \<or>
       (\<not> rename_ok e (Rel p) \<and> copy_result e (Rel p) = CopyDenied)"
    from process_source_error_keeps [OF assms(1) this] assms(2)
    show "files st' (Rel p) = Some c" by simp
  qed
  have t: "files st (Tmp (next_tmp st)) = None \<longrightarrow> (\<forall>n. files st' (Tmp n) = files st (Tmp n))"
    using process_source_tmp_same [OF assms(2)] by blast
  have f: "\<forall>q. q \<noteq> p \<longrightarrow> files st' (Rel q) = files st (Rel q)"
    using process_source_frame [OF assms(2)] by blast
  show ?thesis by (rule conjI [OF a conjI [OF b conjI [OF d conjI [OF t f]]]])
qed

theorem C2_all_or_nothing_witness:
  "files (snd (process_source no_faults (Rel [''.'', ''A.java'']) example_state))
     (Rel [''.'', ''A.java'']) =
     Some (''import net.jcip.annotations.Immutable;'' @ [CHR 0x0A] @ ''class A {}'') \<and>
   files (snd (process_source (no_faults\<lparr>open_fault := \<lambda>p. True\<rparr>) (Rel [''.'', ''A.java''])
     example_state)) = files example_state \<and>
   files (snd (process_source no_faults (Rel [''.'', ''B.java'']) example_state))
     (Rel [''.'', ''B.java'']) = Some ''import java.util.List;''"
proof -
  let ?e = "no_faults\<lparr>open_fault := \<lambda>p. True\<rparr>"
  let ?a = "[''.'', ''A.java'']" and ?b = "[''.'', ''B.java'']"
  let ?ca = "''import org.apache.http.annotation.Immutable;'' @ [CHR 0x0A] @ ''class A {}''"
  have fa: "files example_state (Rel ?a) = Some ?ca"
    and fb: "files example_state (Rel ?b) = Some ''import java.util.List;''"
    and ft: "files example_state (Tmp (next_tmp example_state)) = None"
    by (simp_all add: example_state_def)
  have pa: "process_source no_faults (Rel ?a) example_state =
      (fst (process_source no_faults (Rel ?a) example_state),
       snd (process_source no_faults (Rel ?a) example_state))" by simp
  have pe: "process_source ?e (Rel ?a) example_state =
      (fst (process_source ?e (Rel ?a) example_state),
       snd (process_source ?e (Rel ?a) example_state))" by simp
  have pb: "process_source no_faults (Rel ?b) example_state =
      (fst (process_source no_faults (Rel ?b) example_state),
       snd (process_source no_faults (Rel ?b) example_state))" by simp
  have "rename_ok no_faults (Rel ?a)" by (simp add: no_faults_def)
  with C2_all_or_nothing [OF fa pa, THEN conjunct1]
  have "files (snd (process_source no_faults (Rel ?a) example_state)) (Rel ?a) = Some ?ca \<or>
        files (snd (process_source no_faults (Rel ?a) example_state)) (Rel ?a) = Some (rewrite ?ca)"
    by blast
  moreover have "files (snd (process_source no_faults (Rel ?a) example_state)) (Rel ?a) \<noteq> Some ?ca"
    by (simp add: process_source_no_faults fa rewrite_def rewrite_line_def splitlines_def
          annot_match_prefix)
  moreover have "rewrite ?ca = ''import net.jcip.annotations.Immutable;'' @ [CHR 0x0A] @ ''class A {}''"
    by (simp add: rewrite_def rewrite_line_def splitlines_def annot_match_prefix)
  ultimately have 1: "files (snd (process_source no_faults (Rel ?a) example_state)) (Rel ?a) =
     Some (''import net.jcip.annotations.Immutable;'' @ [CHR 0x0A] @ ''class A {}'')"
    by simp
  note inst = C2_all_or_nothing [OF fa pe]
  have o: "open_fault ?e (Rel ?a)" by simp
  from inst [THEN conjunct2, THEN conjunct2, THEN conjunct1] o
  have ka: "files (snd (process_source ?e (Rel ?a) example_state)) (Rel ?a) = Some ?ca" by blast
  from inst [THEN conjunct2, THEN conjunct2, THEN conjunct2, THEN conjunct1] ft
  have kt: "\<forall>n. files (snd (process_source ?e (Rel ?a) example_state)) (Tmp n) =
      files example_state (Tmp n)" by blast
  from inst [THEN conjunct2, THEN conjunct2, THEN conjunct2, THEN conjunct2]
  have kq: "\<forall>q. q \<noteq> ?a \<longrightarrow> files (snd (process_source ?e (Rel ?a) example_state)) (Rel q) =
      files example_state (Rel q)" .
  have "files (snd (process_source ?e (Rel ?a) example_state)) x = files example_state x" for x
  proof (cases x)
    case (Rel y)
    with ka fa kq show ?thesis by (cases "y = ?a") auto
  next
    case (Tmp k)
    with kt show ?thesis by simp
  qed
  then have 2: "files (snd (process_source ?e (Rel ?a) example_state)) = files example_state"
    by (rule ext)
  have n: "\<forall>l\<in>set (splitlines ''import java.util.List;''). \<not> re_match annot_pattern l"
    by (simp add: splitlines_def annot_match_prefix)
  from C2_all_or_nothing [OF fb pb, THEN conjunct2, THEN conjunct1] n
  have 3: "files (snd (process_source no_faults (Rel ?b) example_state)) (Rel ?b) =
      Some ''import java.util.List;''" by blast
  show ?thesis by (rule conjI [OF 1 conjI [OF 2 3]])
qed

text \<open>
  Claim C2 as stated fails when the scratch file cannot be renamed over the original (it is
  on another file system) and the copy breaks off: the original is left with the first
  characters of the new content, the scratch file is removed and the function returns
  normally.
\<close>

theorem C2_counterexample:
  "process_source
     (no_faults\<lparr>rename_ok := \<lambda>p. False, copy_result := \<lambda>p. CopyFailsAt 7\<rparr>)
     (Rel [''.'', ''A.java''])
     \<lparr>files = [Rel [''.'', ''A.java''] \<mapsto> ''import org.apache.http.annotation.Immutable;''],
      next_tmp = 0\<rparr> =
   (Inr (), \<lparr>files = [Rel [''.'', ''A.java''] \<mapsto> ''import ''], next_tmp = 1\<rparr>)"
  by (simp add: model_defs fun_eq_iff)

text \<open>
  Claim C3 (as amended). When the scratch file can be created, \<open>process_source\<close> returns
  normally whatever fails afterwards, and the scratch file is removed: no exception of the
  \<open>try\<close> block leaves the function. Only the failure of \<open>mkstemp\<close>, before the \<open>try\<close>, leaves
  it, with the store untouched. An exception that does leave ends the loop over a directory
  at that entry; what the entries before it did to the store stays.
\<close>

theorem C3_errors_swallowed:
  "(\<not> mkstemp_fault e (next_tmp st) \<longrightarrow>
      fst (process_source e (Rel p) st) = Inr () \<and>
      files (snd (process_source e (Rel p) st)) (Tmp (next_tmp st)) = None) \<and>
   (mkstemp_fault e (next_tmp st) \<longrightarrow> process_source e (Rel p) st = (Inl OSError, st)) \<and>
   process_files e dir (es1 @ es2) st =
     (case process_files e dir es1 st of
        (Inl x, st1) \<Rightarrow> (Inl x, st1)
      | (Inr u, st1) \<Rightarrow> process_files e dir es2 st1)"
proof -
  have a: "\<not> mkstemp_fault e (next_tmp st) \<longrightarrow>
      fst (process_source e (Rel p) st) = Inr () \<and>
      files (snd (process_source e (Rel p) st)) (Tmp (next_tmp st)) = None"
    using process_source_returns [of e st p] by blast
  have b: "mkstemp_fault e (next_tmp st) \<longrightarrow> process_source e (Rel p) st = (Inl OSError, st)"
    by (simp add: process_source_def mkstemp_def)
  show ?thesis by (rule conjI [OF a conjI [OF b process_files_append]])
qed

theorem C3_errors_swallowed_witness:
  "fst (run (no_faults\<lparr>mkstemp_fault := \<lambda>n. n = 1\<rparr>)
          (Dir [(''A.java'', File), (''B.java'', File)])
          \<lparr>files = [Rel [''.'', ''A.java''] \<mapsto> ''import org.apache.http.annotation.A;'',
                    Rel [''.'', ''B.java''] \<mapsto> ''import org.apache.http.annotation.B;''],
           next_tmp = 0\<rparr>) = Inl OSError \<and>
   files (snd (run (no_faults\<lparr>mkstemp_fault := \<lambda>n. n = 1\<rparr>)
          (Dir [(''A.java'', File), (''B.java'', File)])
          \<lparr>files = [Rel [''.'', ''A.java''] \<mapsto> ''import org.apache.http.annotation.A;'',
                    Rel [''.'', ''B.java''] \<mapsto> ''import org.apache.http.annotation.B;''],
           next_tmp = 0\<rparr>)) (Rel [''.'', ''A.java'']) = Some ''import net.jcip.annotations.A;'' \<and>
   files (snd (run (no_faults\<lparr>mkstemp_fault := \<lambda>n. n = 1\<rparr>)
          (Dir [(''A.java'', File), (''B.java'', File)])
          \<lparr>files = [Rel [''.'', ''A.java''] \<mapsto> ''import org.apache.http.annotation.A;'',
                    Rel [''.'', ''B.java''] \<mapsto> ''import org.apache.http.annotation.B;''],
           next_tmp = 0\<rparr>)) (Rel [''.'', ''B.java'']) = Some ''import org.apache.http.annotation.B;''"
proof -
  let ?e = "no_faults\<lparr>mkstemp_fault := \<lambda>n. n = 1\<rparr>"
  let ?s = "\<lparr>files = [Rel [''.'', ''A.java''] \<mapsto> ''import org.apache.http.annotation.A;'',
                    Rel [''.'', ''B.java''] \<mapsto> ''import org.apache.http.annotation.B;''],
           next_tmp = 0\<rparr>"
  let ?s1 = "\<lparr>files = [Rel [''.'', ''A.java''] \<mapsto> ''import net.jcip.annotations.A;'',
                    Rel [''.'', ''B.java''] \<mapsto> ''import org.apache.http.annotation.B;''],
           next_tmp = 1\<rparr>"
  have j: "re_match java_pattern ''A.java''" "re_match java_pattern ''B.java''"
    by (simp_all add: re_match_def java_pattern_def)
  have 1: "process_source ?e (Rel [''.'', ''A.java'']) ?s = (Inr (), ?s1)"
    by (simp add: model_defs fun_eq_iff)
  have "mkstemp_fault ?e (next_tmp ?s1)" by simp
  with C3_errors_swallowed [of ?e ?s1 "[''.'', ''B.java'']" "[''.'']" "[]" "[]", THEN conjunct2,
      THEN conjunct1]
  have 2: "process_source ?e (Rel [''.'', ''B.java'']) ?s1 = (Inl OSError, ?s1)" by blast
  have "run ?e (Dir [(''A.java'', File), (''B.java'', File)]) ?s = (Inl OSError, ?s1)"
    using j 1 2 by (simp add: run_def join_def)
  then show ?thesis by simp
qed

text \<open>
  Claim C3 as stated fails when opening a file raises: \<open>process_source\<close> returns normally,
  the run goes on and rewrites the next file, and ends normally.
\<close>

theorem C3_counterexample:
  "process_source (no_faults\<lparr>open_fault := \<lambda>p. p = Rel [''.'', ''A.java'']\<rparr>)
     (Rel [''.'', ''A.java''])
     \<lparr>files = [Rel [''.'', ''A.java''] \<mapsto> ''import org.apache.http.annotation.A;'',
               Rel [''.'', ''B.java''] \<mapsto> ''import org.apache.http.annotation.B;''],
      next_tmp = 0\<rparr> =
   (Inr (),
    \<lparr>files = [Rel [''.'', ''A.java''] \<mapsto> ''import org.apache.http.annotation.A;'',
              Rel [''.'', ''B.java''] \<mapsto> ''import org.apache.http.annotation.B;''],
     next_tmp = 1\<rparr>) \<and>
   run (no_faults\<lparr>open_fault := \<lambda>p. p = Rel [''.'', ''A.java'']\<rparr>)
     (Dir [(''A.java'', File), (''B.java'', File)])
     \<lparr>files = [Rel [''.'', ''A.java''] \<mapsto> ''import org.apache.http.annotation.A;'',
               Rel [''.'', ''B.java''] \<mapsto> ''import org.apache.http.annotation.B;''],
      next_tmp = 0\<rparr> =
   (Inr (),
    \<lparr>files = [Rel [''.'', ''A.java''] \<mapsto> ''import org.apache.http.annotation.A;'',
              Rel [''.'', ''B.java''] \<mapsto> ''import net.jcip.annotations.B;''],
     next_tmp = 2\<rparr>)"
proof -
  let ?e = "no_faults\<lparr>open_fault := \<lambda>p. p = Rel [''.'', ''A.java'']\<rparr>"
  let ?s = "\<lparr>files = [Rel [''.'', ''A.java''] \<mapsto> ''import org.apache.http.annotation.A;'',
               Rel [''.'', ''B.java''] \<mapsto> ''import org.apache.http.annotation.B;''],
      next_tmp = 0\<rparr>"
  let ?s1 = "\<lparr>files = [Rel [''.'', ''A.java''] \<mapsto> ''import org.apache.http.annotation.A;'',
              Rel [''.'', ''B.java''] \<mapsto> ''import org.apache.http.annotation.B;''],
     next_tmp = 1\<rparr>"
  let ?s2 = "\<lparr>files = [Rel [''.'', ''A.java''] \<mapsto> ''import org.apache.http.annotation.A;'',
              Rel [''.'', ''B.java''] \<mapsto> ''import net.jcip.annotations.B;''],
     next_tmp = 2\<rparr>"
  have j: "re_match java_pattern ''A.java''" "re_match java_pattern ''B.java''"
    by (simp_all add: re_match_def java_pattern_def)
  have 1: "process_source ?e (Rel [''.'', ''A.java'']) ?s = (Inr (), ?s1)"
    by (simp add: model_defs fun_eq_iff)
  have 2: "process_source ?e (Rel [''.'', ''B.java'']) ?s1 = (Inr (), ?s2)"
    by (simp add: model_defs fun_eq_iff)
  have "run ?e (Dir [(''A.java'', File), (''B.java'', File)]) ?s = (Inr (), ?s2)"
    using j 1 2 by (simp add: run_def join_def)
  with 1 show ?thesis by (rule conjI)
qed

text \<open>
  Claim C4. Once the scratch file exists, \<open>process_source\<close> does not raise: when the body of
  the \<open>try\<close> raises, the handler removes the scratch file and the function returns normally,
  and when the body ends normally so does the function; the scratch file is gone in both
  cases, and the loop over the directory goes on with the remaining entries.
\<close>

theorem C4_try_body_caught:
  assumes "mkstemp e st = (Inr tmpfile, st0)"
  shows "(\<forall>x st1. try_body e (Rel p) tmpfile st0 = (Inl x, st1) \<longrightarrow>
            process_source e (Rel p) st = (Inr (), st1\<lparr>files := (files st1)(tmpfile := None)\<rparr>)) \<and>
         (\<forall>u st1. try_body e (Rel p) tmpfile st0 = (Inr u, st1) \<longrightarrow>
            process_source e (Rel p) st = (Inr (), st1)) \<and>
         fst (process_source e (Rel p) st) = Inr () \<and>
         files (snd (process_source e (Rel p) st)) tmpfile = None \<and>
         (re_match java_pattern name \<longrightarrow> p = join dir name \<longrightarrow>
            process_files e dir ((name, File) # rest) st =
              process_files e dir rest (snd (process_source e (Rel p) st)))"
proof -
  from assms have nf: "\<not> mkstemp_fault e (next_tmp st)" and t: "tmpfile = Tmp (next_tmp st)"
    by (auto simp: mkstemp_def split: if_splits)
  have a: "\<forall>x st1. try_body e (Rel p) tmpfile st0 = (Inl x, st1) \<longrightarrow>
            process_source e (Rel p) st = (Inr (), st1\<lparr>files := (files st1)(tmpfile := None)\<rparr>)"
  proof (intro allI impI)
    fix x st1
    assume tb: "try_body e (Rel p) tmpfile st0 = (Inl x, st1)"
    with t have "files st1 tmpfile \<noteq> None" using try_body_keeps_tmp by blast
    with assms tb show "process_source e (Rel p) st =
        (Inr (), st1\<lparr>files := (files st1)(tmpfile := None)\<rparr>)"
      by (simp add: process_source_def os_remove_def)
  qed
  have b: "\<forall>u st1. try_body e (Rel p) tmpfile st0 = (Inr u, st1) \<longrightarrow>
            process_source e (Rel p) st = (Inr (), st1)"
    using assms by (simp add: process_source_def)
  from process_source_returns [OF nf, of p] t
  have c: "fst (process_source e (Rel p) st) = Inr ()"
    and d: "files (snd (process_source e (Rel p) st)) tmpfile = None" by simp_all
  have f: "re_match java_pattern name \<longrightarrow> p = join dir name \<longrightarrow>
            process_files e dir ((name, File) # rest) st =
              process_files e dir rest (snd (process_source e (Rel p) st))"
    using c by (auto split: prod.splits sum.splits)
  show ?thesis by (rule conjI [OF a conjI [OF b conjI [OF c conjI [OF d f]]]])
qed

theorem C4_try_body_caught_witness:
  "fst (try_body (no_faults\<lparr>open_fault := \<lambda>p. True\<rparr>) (Rel [''.'', ''A.java'']) (Tmp 0)
         (snd (mkstemp (no_faults\<lparr>open_fault := \<lambda>p. True\<rparr>) example_state))) = Inl IOError \<and>
   fst (process_source (no_faults\<lparr>open_fault := \<lambda>p. True\<rparr>) (Rel [''.'', ''A.java''])
         example_state) = Inr () \<and>
   files (snd (process_source (no_faults\<lparr>open_fault := \<lambda>p. True\<rparr>) (Rel [''.'', ''A.java''])
         example_state)) (Tmp 0) = None"
proof -
  let ?e = "no_faults\<lparr>open_fault := \<lambda>p. True\<rparr>"
  have m: "mkstemp ?e example_state = (Inr (Tmp 0), snd (mkstemp ?e example_state))"
    by (simp add: mkstemp_def no_faults_def example_state_def)
  have tb: "fst (try_body ?e (Rel [''.'', ''A.java'']) (Tmp 0) (snd (mkstemp ?e example_state))) =
      Inl IOError"
    by (simp add: try_body_def copy_lines_def py_open_def dst_close_def no_faults_def)
  note inst = C4_try_body_caught [OF m, of "[''.'', ''A.java'']" "''A.java''" "[''.'']" "[]"]
  from inst [THEN conjunct2, THEN conjunct2, THEN conjunct1]
  have 1: "fst (process_source ?e (Rel [''.'', ''A.java'']) example_state) = Inr ()" .
  from inst [THEN conjunct2, THEN conjunct2, THEN conjunct2, THEN conjunct1]
  have 2: "files (snd (process_source ?e (Rel [''.'', ''A.java'']) example_state)) (Tmp 0) = None" .
  from tb 1 2 show ?thesis by (simp only: simp_thms)
qed

text \<open>
  Claim C5. A directory whose name matches the ignore pattern is skipped by the loop whatever
  it contains, and a run leaves every file below such a directory (at any depth below the
  root) with the content it had; \<open>target\<close> is such a name.
\<close>

theorem C5_ignored_not_descended:
  "(isdir t \<longrightarrow> re_match ignore_pattern name \<longrightarrow>
      process_files e dir ((name, t) # rest) st = process_files e dir rest st) \<and>
   (re_match ignore_pattern d \<longrightarrow> ms \<noteq> [] \<longrightarrow>
      files (snd (run e root st)) (Rel (''.'' # ns @ d # ms)) =
        files st (Rel (''.'' # ns @ d # ms))) \<and>
   re_match ignore_pattern ''target''"
proof -
  have a: "isdir t \<longrightarrow> re_match ignore_pattern name \<longrightarrow>
      process_files e dir ((name, t) # rest) st = process_files e dir rest st"
    by simp
  have b: "re_match ignore_pattern d \<longrightarrow> ms \<noteq> [] \<longrightarrow>
      files (snd (run e root st)) (Rel (''.'' # ns @ d # ms)) =
        files st (Rel (''.'' # ns @ d # ms))"
  proof (intro impI, rule ccontr)
    assume d: "re_match ignore_pattern d" and ms: "ms \<noteq> []"
      and "files (snd (run e root st)) (Rel (''.'' # ns @ d # ms)) \<noteq>
           files st (Rel (''.'' # ns @ d # ms))"
    from run_frame [OF this(3)]
    have "\<forall>n\<in>set (butlast (ns @ d # ms)). \<not> re_match ignore_pattern n" by blast
    moreover from ms have "d \<in> set (butlast (ns @ d # ms))"
      by (simp add: butlast_append)
    ultimately show False using d by blast
  qed
  have c: "re_match ignore_pattern ''target''"
    by (simp add: re_match_def ignore_pattern_def)
  from a b c show ?thesis by blast
qed

theorem C5_ignored_not_descended_witness:
  "re_match ignore_pattern ''target'' \<and>
   files (snd (run no_faults example_tree example_state)) (Rel [''.'', ''target'', ''C.java'']) =
     Some ''import org.apache.http.annotation.Immutable;'' \<and>
   files (snd (run no_faults example_tree example_state)) (Rel [''.'', ''A.java'']) =
     Some (''import net.jcip.annotations.Immutable;'' @ [CHR 0x0A] @ ''class A {}'')"
proof -
  have t: "re_match ignore_pattern ''target''"
    by (simp add: re_match_def ignore_pattern_def)
  have "re_match ignore_pattern ''target'' \<longrightarrow> [''C.java''] \<noteq> [] \<longrightarrow>
      files (snd (run no_faults example_tree example_state)) (Rel (''.'' # [] @ ''target'' # [''C.java''])) =
        files example_state (Rel (''.'' # [] @ ''target'' # [''C.java'']))"
    by (rule C5_ignored_not_descended [of "Dir []" "''target''" no_faults "[]" "[]" example_state
          "''target''" "[''C.java'']" example_tree "[]", THEN conjunct2, THEN conjunct1])
  with t have "files (snd (run no_faults example_tree example_state)) (Rel [''.'', ''target'', ''C.java'']) =
        files example_state (Rel [''.'', ''target'', ''C.java''])" by simp
  moreover have "files example_state (Rel [''.'', ''target'', ''C.java'']) =
      Some ''import org.apache.http.annotation.Immutable;''"
    by (simp add: example_state_def)
  moreover have "files (snd (run no_faults example_tree example_state)) (Rel [''.'', ''A.java'']) =
     Some (''import net.jcip.annotations.Immutable;'' @ [CHR 0x0A] @ ''class A {}'')"
    by (simp add: eval_defs)
  ultimately show ?thesis using t by simp
qed

text \<open>
  Claim C6. A run leaves a file whose name is not eligible with the content it had, and makes
  no call for it; it leaves a file none of whose lines matches with the content it had;
  processing such a file leaves the whole store as it was, the scratch file being removed
  whatever fails; and a run that starts without scratch files ends without scratch files.
\<close>

theorem C6_untouched:
  "(ns \<noteq> [] \<longrightarrow> \<not> re_match java_pattern (last ns) \<longrightarrow>
      files (snd (run e root st)) (Rel (''.'' # ns)) = files st (Rel (''.'' # ns))) \<and>
   (\<not> re_match java_pattern name \<longrightarrow>
      process_files e dir ((name, File) # rest) st = process_files e dir rest st) \<and>
   (files st (Rel q) = Some c \<longrightarrow> (\<forall>l\<in>set (splitlines c). \<not> re_match annot_pattern l) \<longrightarrow>
      files (snd (run e root st)) (Rel q) = Some c) \<and>
   (files st (Rel p) = Some c \<longrightarrow> (\<forall>l\<in>set (splitlines c). \<not> re_match annot_pattern l) \<longrightarrow>
      files st (Tmp (next_tmp st)) = None \<longrightarrow>
      files (snd (process_source e (Rel p) st)) = files st) \<and>
   ((\<forall>n. files st (Tmp n) = None) \<longrightarrow> (\<forall>n. files (snd (run e root st)) (Tmp n) = None))"
proof -
  have a: "ns \<noteq> [] \<longrightarrow> \<not> re_match java_pattern (last ns) \<longrightarrow>
      files (snd (run e root st)) (Rel (''.'' # ns)) = files st (Rel (''.'' # ns))"
    using run_frame [of e root st ns] by blast
  have b: "\<not> re_match java_pattern name \<longrightarrow>
      process_files e dir ((name, File) # rest) st = process_files e dir rest st"
    by simp
  have c: "files st (Rel q) = Some c \<longrightarrow> (\<forall>l\<in>set (splitlines c). \<not> re_match annot_pattern l) \<longrightarrow>
      files (snd (run e root st)) (Rel q) = Some c"
  proof (intro impI)
    assume f: "files st (Rel q) = Some c"
      and n: "\<forall>l\<in>set (splitlines c). \<not> re_match annot_pattern l"
    have step: "\<And>e p s r s'. files s (Rel q) = Some c \<Longrightarrow>
        process_source e (Rel p) s = (r, s') \<Longrightarrow> files s' (Rel q) = Some c"
      by (rule process_source_keeps_unmatched [OF _ n])
    from run_invariant [where I = "\<lambda>s. files s (Rel q) = Some c", OF step f]
    show "files (snd (run e root st)) (Rel q) = Some c" .
  qed
  have d: "files st (Rel p) = Some c \<longrightarrow> (\<forall>l\<in>set (splitlines c). \<not> re_match annot_pattern l) \<longrightarrow>
      files st (Tmp (next_tmp st)) = None \<longrightarrow>
      files (snd (process_source e (Rel p) st)) = files st"
  proof (intro impI)
    assume f: "files st (Rel p) = Some c"
      and n: "\<forall>l\<in>set (splitlines c). \<not> re_match annot_pattern l"
      and t: "files st (Tmp (next_tmp st)) = None"
    obtain r st' where ps: "process_source e (Rel p) st = (r, st')"
      by (cases "process_source e (Rel p) st") auto
    have "files st' x = files st x" for x
    proof (cases x)
      case (Rel y)
      show ?thesis
      proof (cases "y = p")
        case True
        from process_source_keeps_unmatched [OF f n ps] have "files st' (Rel p) = Some c" .
        with f True Rel show ?thesis by simp
      next
        case False
        from process_source_frame [OF ps False] Rel show ?thesis by simp
      qed
    next
      case (Tmp k)
      from process_source_tmp_same [OF ps t] Tmp show ?thesis by simp
    qed
    then have "files st' = files st" by (rule ext)
    with ps show "files (snd (process_source e (Rel p) st)) = files st" by simp
  qed
  have e: "(\<forall>n. files st (Tmp n) = None) \<longrightarrow> (\<forall>n. files (snd (run e root st)) (Tmp n) = None)"
  proof
    assume t: "\<forall>n. files st (Tmp n) = None"
    have step: "\<And>e p s r s'. \<forall>n. files s (Tmp n) = None \<Longrightarrow>
        process_source e (Rel p) s = (r, s') \<Longrightarrow> \<forall>n. files s' (Tmp n) = None"
      by (rule process_source_tmp_clean)
    from run_invariant [where I = "\<lambda>s. \<forall>n. files s (Tmp n) = None", OF step t]
    show "\<forall>n. files (snd (run e root st)) (Tmp n) = None" .
  qed
  show ?thesis by (rule conjI [OF a conjI [OF b conjI [OF c conjI [OF d e]]]])
qed

theorem C6_untouched_witness:
  "\<not> re_match java_pattern ''README'' \<and>
   files (snd (run no_faults example_tree example_state)) (Rel [''.'', ''README'']) =
     Some ''import org.apache.http.annotation.Immutable;'' \<and>
   process_files no_faults [''.''] [(''README'', File)] example_state = (Inr (), example_state) \<and>
   files (snd (run no_faults example_tree example_state)) (Rel [''.'', ''B.java'']) =
     Some ''import java.util.List;'' \<and>
   files (snd (process_source no_faults (Rel [''.'', ''B.java'']) example_state)) =
     files example_state \<and>
   files (snd (run no_faults example_tree example_state)) (Tmp 0) = None"
proof -
  note inst = C6_untouched [of "[''README'']" no_faults example_tree example_state "''README''"
      "[''.'']" "[]" "[''.'', ''B.java'']" "''import java.util.List;''" "[''.'', ''B.java'']"]
  have j: "\<not> re_match java_pattern ''README''"
    by (simp add: re_match_def java_pattern_def)
  have f: "files example_state (Rel [''.'', ''B.java'']) = Some ''import java.util.List;''"
    by (simp add: example_state_def)
  have n: "\<forall>l\<in>set (splitlines ''import java.util.List;''). \<not> re_match annot_pattern l"
    by (simp add: splitlines_def annot_match_prefix)
  have t: "\<forall>n. files example_state (Tmp n) = None"
    by (simp add: example_state_def)
  then have t0: "files example_state (Tmp (next_tmp example_state)) = None" by blast
  have r: "files example_state (Rel [''.'', ''README'']) =
      Some ''import org.apache.http.annotation.Immutable;''"
    by (simp add: example_state_def)
  from inst [THEN conjunct1] j r
  have 1: "files (snd (run no_faults example_tree example_state)) (Rel [''.'', ''README'']) =
     Some ''import org.apache.http.annotation.Immutable;''" by simp
  from inst [THEN conjunct2, THEN conjunct1] j
  have 2: "process_files no_faults [''.''] [(''README'', File)] example_state =
      (Inr (), example_state)" by simp
  from inst [THEN conjunct2, THEN conjunct2, THEN conjunct1] f n
  have 3: "files (snd (run no_faults example_tree example_state)) (Rel [''.'', ''B.java'']) =
     Some ''import java.util.List;''" by blast
  from inst [THEN conjunct2, THEN conjunct2, THEN conjunct2, THEN conjunct1] f n t0
  have 4: "files (snd (process_source no_faults (Rel [''.'', ''B.java'']) example_state)) =
     files example_state" by blast
  from inst [THEN conjunct2, THEN conjunct2, THEN conjunct2, THEN conjunct2] t
  have 5: "files (snd (run no_faults example_tree example_state)) (Tmp 0) = None" by blast
  from j 1 2 3 4 5 show ?thesis by (simp only: simp_thms)
qed

text \<open>
  Claim C7. The rewrite is idempotent. The text that the loop writes for a content \<open>c\<close> is
  \<open>rewrite c\<close>, and rewriting that text again gives the same text; processing a file twice
  in succession, with nothing failing, leaves the content that processing it once leaves;
  and a line that begins with \<open>import net.jcip.annotations.\<close> does not match the pattern.
\<close>

theorem C7_idempotent:
  "snd (snd (line_loop None (splitlines c) False [])) = rewrite c \<and>
   rewrite (rewrite c) = rewrite c \<and>
   files (snd (process_source no_faults (Rel p) (snd (process_source no_faults (Rel p) st))))
         (Rel p) =
     files (snd (process_source no_faults (Rel p) st)) (Rel p) \<and>
   \<not> re_match annot_pattern (''import net.jcip.annotations.'' @ r)"
proof -
  have a: "snd (snd (line_loop None (splitlines c) False [])) = rewrite c"
    by (simp add: line_loop_no_fault rewrite_def)
  have b: "files (snd (process_source no_faults (Rel p) (snd (process_source no_faults (Rel p) st))))
         (Rel p) = files (snd (process_source no_faults (Rel p) st)) (Rel p)"
  proof (cases "files st (Rel p)")
    case None
    then show ?thesis by (simp add: process_source_no_faults)
  next
    case (Some d)
    show ?thesis
    proof (cases "\<exists>l\<in>set (splitlines d). re_match annot_pattern l")
      case True
      have "\<not> (\<exists>l\<in>set (splitlines (rewrite d)). re_match annot_pattern l)"
        using rewrite_unmatched by blast
      with Some True show ?thesis by (simp add: process_source_no_faults)
    next
      case False
      with Some show ?thesis by (simp add: process_source_no_faults)
    qed
  qed
  from a b show ?thesis by (simp only: rewrite_idem new_prefix_no_match simp_thms)
qed

text \<open>
  Claim C8. The line \<open>import org.apache.http.annotation.ThreadSafe;\<close> matches and is written
  as \<open>import net.jcip.annotations.ThreadSafe;\<close>, which is then the content of a file that
  held exactly that line; a file whose content is exactly \<open>import java.util.List;\<close> has
  the same content after processing, whatever fails on the way.
\<close>

theorem C8_scenarios:
  "re_match annot_pattern ''import org.apache.http.annotation.ThreadSafe;'' \<and>
   line_loop None [''import org.apache.http.annotation.ThreadSafe;''] False [] =
     (Inr (), True, ''import net.jcip.annotations.ThreadSafe;'') \<and>
   files (snd (process_source no_faults (Rel p)
            \<lparr>files = fs(Rel p \<mapsto> ''import org.apache.http.annotation.ThreadSafe;''),
             next_tmp = n\<rparr>)) (Rel p) =
     Some ''import net.jcip.annotations.ThreadSafe;'' \<and>
   files (snd (process_source e (Rel p)
            \<lparr>files = fs(Rel p \<mapsto> ''import java.util.List;''), next_tmp = n\<rparr>)) (Rel p) =
     Some ''import java.util.List;''"
proof -
  have a: "re_match annot_pattern ''import org.apache.http.annotation.ThreadSafe;''"
    by (simp add: annot_match_prefix)
  have b: "line_loop None [''import org.apache.http.annotation.ThreadSafe;''] False [] =
     (Inr (), True, ''import net.jcip.annotations.ThreadSafe;'')"
    by (simp add: annot_match_prefix)
  have c: "files (snd (process_source no_faults (Rel p)
            \<lparr>files = fs(Rel p \<mapsto> ''import org.apache.http.annotation.ThreadSafe;''),
             next_tmp = n\<rparr>)) (Rel p) =
     Some ''import net.jcip.annotations.ThreadSafe;''"
    by (simp add: process_source_no_faults rewrite_def rewrite_line_def splitlines_def
          annot_match_prefix)
  have d: "files (snd (process_source e (Rel p)
            \<lparr>files = fs(Rel p \<mapsto> ''import java.util.List;''), next_tmp = n\<rparr>)) (Rel p) =
     Some ''import java.util.List;''"
    by (rule process_source_keeps_unmatched [where e = e and p = p
          and st = "\<lparr>files = fs(Rel p \<mapsto> ''import java.util.List;''), next_tmp = n\<rparr>"
          and r = "fst (process_source e (Rel p)
            \<lparr>files = fs(Rel p \<mapsto> ''import java.util.List;''), next_tmp = n\<rparr>)"])
       (simp_all add: splitlines_def annot_match_prefix)
  from a b c d show ?thesis by (simp only: simp_thms)
qed

text \<open>
  Claim C9 (as amended). Eligibility is a test on the name's first line, not on its
  extension: a non-directory is handed to \<open>process_source\<close> exactly when its name contains
  \<open>.java\<close> with no newline character before that occurrence (the dot of \<open>.*\<close> does not match a
  newline); for a name without a newline, exactly when it contains \<open>.java\<close> anywhere. So
  \<open>Foo.java.orig\<close> and \<open>x.javascript\<close> are processed too.
\<close>

theorem C9_java_match:
  "re_match java_pattern name =
     (\<exists>pre suf. name = pre @ ''.java'' @ suf \<and> CHR 0x0A \<notin> set pre) \<and>
   (CHR 0x0A \<notin> set name \<longrightarrow> re_match java_pattern name = sublist ''.java'' name) \<and>
   process_files e dir ((name, File) # rest) st =
     (if re_match java_pattern name
      then (case process_source e (Rel (join dir name)) st of
              (Inl x, st1) \<Rightarrow> (Inl x, st1)
            | (Inr u, st1) \<Rightarrow> process_files e dir rest st1)
      else process_files e dir rest st) \<and>
   re_match java_pattern ''Foo.java.orig'' \<and> re_match java_pattern ''x.javascript''"
proof -
  have a: "re_match java_pattern name =
     (\<exists>pre suf. name = pre @ ''.java'' @ suf \<and> CHR 0x0A \<notin> set pre)"
    by (rule java_match_iff)
  have b: "CHR 0x0A \<notin> set name \<longrightarrow> re_match java_pattern name = sublist ''.java'' name"
  proof
    assume nl: "CHR 0x0A \<notin> set name"
    show "re_match java_pattern name = sublist ''.java'' name"
    proof
      assume "re_match java_pattern name"
      with a show "sublist ''.java'' name" unfolding sublist_def by blast
    next
      assume "sublist ''.java'' name"
      then obtain pre suf where eq: "name = pre @ ''.java'' @ suf" unfolding sublist_def by blast
      with nl have "CHR 0x0A \<notin> set pre" by auto
      with eq a show "re_match java_pattern name" by blast
    qed
  qed
  have c: "process_files e dir ((name, File) # rest) st =
     (if re_match java_pattern name
      then (case process_source e (Rel (join dir name)) st of
              (Inl x, st1) \<Rightarrow> (Inl x, st1)
            | (Inr u, st1) \<Rightarrow> process_files e dir rest st1)
      else process_files e dir rest st)"
    by simp
  have d: "re_match java_pattern ''Foo.java.orig''" "re_match java_pattern ''x.javascript''"
    by (simp_all add: re_match_def java_pattern_def)
  from a b c d show ?thesis by blast
qed

theorem C9_java_match_witness:
  "CHR 0x0A \<notin> set ''Foo.java.orig'' \<and> sublist ''.java'' ''Foo.java.orig'' \<and>
   re_match java_pattern ''Foo.java.orig''"
proof -
  have nl: "CHR 0x0A \<notin> set ''Foo.java.orig''" by simp
  have m: "re_match java_pattern ''Foo.java.orig''"
    by (simp add: re_match_def java_pattern_def)
  have "CHR 0x0A \<notin> set ''Foo.java.orig'' \<longrightarrow>
        re_match java_pattern ''Foo.java.orig'' = sublist ''.java'' ''Foo.java.orig''"
    by (rule C9_java_match [of "''Foo.java.orig''" no_faults "[]" "[]"
          "\<lparr>files = Map.empty, next_tmp = 0\<rparr>", THEN conjunct2, THEN conjunct1])
  with nl m show ?thesis by blast
qed

text \<open>
  Claim C9 as stated fails for a name with a newline before its only \<open>.java\<close>: the name
  contains \<open>.java\<close>, the pattern does not match it, and the loop leaves the file alone.
\<close>

theorem C9_counterexample:
  "sublist ''.java'' (CHR 0x0A # ''.java'') \<and>
   \<not> re_match java_pattern (CHR 0x0A # ''.java'') \<and>
   process_files no_faults [''.''] [(CHR 0x0A # ''.java'', File)]
       \<lparr>files = [Rel [''.'', CHR 0x0A # ''.java''] \<mapsto> ''import org.apache.http.annotation.A;''],
        next_tmp = 0\<rparr> =
     (Inr (),
      \<lparr>files = [Rel [''.'', CHR 0x0A # ''.java''] \<mapsto> ''import org.apache.http.annotation.A;''],
       next_tmp = 0\<rparr>)"
  by (simp add: re_match_def java_pattern_def sublist_code)

text \<open>
  Claim C10 (as amended). The ignore test is a prefix match with an unescaped dot: a directory
  is skipped exactly when its name starts with \<open>target\<close>, \<open>bin\<close> or \<open>classes\<close>, or consists of one
  character other than a newline followed by \<open>svn\<close> and anything; so \<open>binaries\<close>, \<open>targets\<close> and
  \<open>Xsvn\<close> are skipped too.
\<close>

theorem C10_ignore_match:
  "re_match ignore_pattern name =
     (prefix ''target'' name \<or> prefix ''bin'' name \<or> prefix ''classes'' name \<or>
      (\<exists>c r. name = c # ''svn'' @ r \<and> c \<noteq> CHR 0x0A)) \<and>
   (isdir t \<longrightarrow>
      process_files e dir ((name, t) # rest) st =
        (if re_match ignore_pattern name then process_files e dir rest st
         else (case process_dir e (join dir name) t st of
                 (Inl x, st1) \<Rightarrow> (Inl x, st1)
               | (Inr u, st1) \<Rightarrow> process_files e dir rest st1))) \<and>
   re_match ignore_pattern ''binaries'' \<and> re_match ignore_pattern ''targets'' \<and>
   re_match ignore_pattern ''Xsvn''"
proof -
  have a: "re_match ignore_pattern name =
     (prefix ''target'' name \<or> prefix ''bin'' name \<or> prefix ''classes'' name \<or>
      (\<exists>c r. name = c # ''svn'' @ r \<and> c \<noteq> CHR 0x0A))"
    by (rule ignore_match_iff)
  have b: "isdir t \<longrightarrow>
      process_files e dir ((name, t) # rest) st =
        (if re_match ignore_pattern name then process_files e dir rest st
         else (case process_dir e (join dir name) t st of
                 (Inl x, st1) \<Rightarrow> (Inl x, st1)
               | (Inr u, st1) \<Rightarrow> process_files e dir rest st1))"
    by simp
  have c: "re_match ignore_pattern ''binaries''" "re_match ignore_pattern ''targets''"
    "re_match ignore_pattern ''Xsvn''"
    by (simp_all add: re_match_def ignore_pattern_def)
  from a b c show ?thesis by blast
qed

theorem C10_ignore_match_witness:
  "isdir (Dir [(''A.java'', File)]) \<and> re_match ignore_pattern ''Xsvn'' \<and>
   process_files no_faults [''.''] [(''Xsvn'', Dir [(''A.java'', File)])]
       \<lparr>files = [Rel [''.'', ''Xsvn'', ''A.java''] \<mapsto> ''import org.apache.http.annotation.A;''],
        next_tmp = 0\<rparr> =
     (Inr (),
      \<lparr>files = [Rel [''.'', ''Xsvn'', ''A.java''] \<mapsto> ''import org.apache.http.annotation.A;''],
       next_tmp = 0\<rparr>)"
  using C10_ignore_match [of "''Xsvn''" "Dir [(''A.java'', File)]" no_faults "[''.'']" "[]"
      "\<lparr>files = [Rel [''.'', ''Xsvn'', ''A.java''] \<mapsto> ''import org.apache.http.annotation.A;''],
        next_tmp = 0\<rparr>"]
  by simp

text \<open>
  Claim C10 as stated fails for a directory whose name is a newline followed by \<open>svn\<close>: the
  pattern does not match, the walk descends into it and rewrites the file it holds.
\<close>

theorem C10_counterexample:
  "\<not> re_match ignore_pattern (CHR 0x0A # ''svn'') \<and>
   files (snd (run no_faults (Dir [(CHR 0x0A # ''svn'', Dir [(''A.java'', File)])])
       \<lparr>files = [Rel [''.'', CHR 0x0A # ''svn'', ''A.java''] \<mapsto>
                   ''import org.apache.http.annotation.A;''],
        next_tmp = 0\<rparr>))
     (Rel [''.'', CHR 0x0A # ''svn'', ''A.java'']) =
   Some ''import net.jcip.annotations.A;''"
  by (simp add: model_defs)

end
